theory Spec2Isabelle
  imports Complex_Main "HOL-Library.Word"
begin

section \<open>Data model of parser.py\<close>

text \<open>
  The parser keeps two global variables, \<open>hierarchy\<close> (the stack of open keys) and
  \<open>python_json\<close> (the output tree), and reads from one binary file object. The three
  together are the state that every function of the parser takes and returns.
\<close>

type_synonym byte = "8 word"

text \<open>
  One entry of \<open>hierarchy\<close> is the Python list
  \<open>[key_name, key_type, key_size, key_repeat, key_size * key_repeat,
    math.ceil(key_size * key_repeat / 4) * 4]\<close>;
  the fields are \<open>h[0]\<close> to \<open>h[5]\<close>. Only \<open>h[5]\<close> is ever changed, and it can
  become negative.
\<close>

record frame =
  f_name :: string
  f_type :: string
  f_size :: nat
  f_repeat :: nat
  f_total :: nat
  f_remaining :: int

text \<open>
  The values stored in the tree. \<open>JKey name type size repeat values\<close> is the one-key
  dictionary \<open>{name: {"Type": type, "Size": size, "Repeat": repeat, "Values": values}}\<close>.
  A float is kept as the bit pattern it was unpacked from.
\<close>

datatype json =
    JInt int
  | JFloat "32 word"
  | JDouble "64 word"
  | JStr string
  | JList "json list"
  | JKey string string nat nat "json list"

record pstate =
  file_bytes :: "byte list"
  hierarchy :: "frame list"
  python_json :: "json list"

datatype py_error =
    IndexError
  | TypeError
  | UnicodeDecodeError
  | StructError
  | ValueError_not_divisible
  | ValueError_not_implemented string
  | KeyError
  | AttributeError
  | ZeroDivisionError

definition initial :: "byte list \<Rightarrow> pstate" where
  "initial bs = \<lparr>file_bytes = bs, hierarchy = [], python_json = []\<rparr>"

section \<open>read_bytes\<close>

text \<open>
  \<open>math.ceil(n / 4)\<close> for a natural number \<open>n\<close>. The division is a float division
  in the source, which is exact for every total a header can announce (at most
  \<open>255 * 65535\<close>).
\<close>

definition ceil_div4 :: "nat \<Rightarrow> nat" where
  "ceil_div4 n = (n + 3) div 4"

text \<open>\<open>padding_bytes = math.ceil(h[4] / 4) * 4 - h[4]\<close>\<close>

definition padding_bytes :: "frame \<Rightarrow> int" where
  "padding_bytes h = int (ceil_div4 (f_total h)) * 4 - int (f_total h)"

text \<open>\<open>h[5] -= amount\<close> for the frame at index \<open>i\<close>.\<close>

definition tick :: "nat \<Rightarrow> nat \<Rightarrow> pstate \<Rightarrow> pstate" where
  "tick i amount s =
     s\<lparr>hierarchy := (hierarchy s)[i := (hierarchy s ! i)
          \<lparr>f_remaining := f_remaining (hierarchy s ! i) - int amount\<rparr>]\<rparr>"

text \<open>
  \<open>file.read(amount)\<close> returns the next \<open>amount\<close> bytes, or all that are left when
  fewer remain, and moves the position behind them. \<open>read_loop amount i\<close> is the
  \<open>for h in hierarchy\<close> loop from index \<open>i\<close> on; the recursive call works on the
  same global list, so the loop goes on with the frames as the call left them.
\<close>

function read_bytes :: "nat \<Rightarrow> pstate \<Rightarrow> byte list \<times> pstate"
  and read_loop :: "nat \<Rightarrow> nat \<Rightarrow> pstate \<Rightarrow> pstate" where
  "read_bytes amount s =
     (take amount (file_bytes s),
      read_loop amount 0 (s\<lparr>file_bytes := drop amount (file_bytes s)\<rparr>))"
| "read_loop amount i s =
     (if i < length (hierarchy s) then
        (if f_remaining (hierarchy (tick i amount s) ! i)
              = padding_bytes (hierarchy (tick i amount s) ! i)
            \<and> padding_bytes (hierarchy (tick i amount s) ! i) \<noteq> 0
         then read_loop amount (Suc i)
                (snd (read_bytes (nat (padding_bytes (hierarchy (tick i amount s) ! i)))
                        (tick i amount s)))
         else read_loop amount (Suc i) (tick i amount s))
      else s)"
  by pat_completeness auto

section \<open>Converting bytes\<close>

definition from_bytes_big :: "byte list \<Rightarrow> int" where
  "from_bytes_big bs = foldl (\<lambda>acc b. acc * 256 + uint b) 0 bs"

definition from_bytes_big_signed :: "byte list \<Rightarrow> int" where
  "from_bytes_big_signed bs =
     (if bs \<noteq> [] \<and> 2 ^ (8 * length bs - 1) \<le> from_bytes_big bs
      then from_bytes_big bs - 2 ^ (8 * length bs)
      else from_bytes_big bs)"

text \<open>\<open>[data[i:i + n] for i in range(0, len(data), n)]\<close>, for \<open>n > 0\<close>.\<close>

function chunks :: "nat \<Rightarrow> 'a list \<Rightarrow> 'a list list" where
  "chunks n xs = (if n = 0 \<or> xs = [] then [] else take n xs # chunks n (drop n xs))"
  by pat_completeness auto
termination
  by (relation "measure (\<lambda>(n, xs). length xs)") auto

text \<open>\<open>bytes_to_string\<close> is only called with \<open>bytes_per_char = 1\<close>.\<close>

definition bytes_to_string :: "byte list \<Rightarrow> string" where
  "bytes_to_string data = map (\<lambda>b. char_of (unat b)) data"

datatype dtype = DInt | DFloat | DDouble

text \<open>\<open>struct.unpack\<close> raises when the buffer has not the size of the format.\<close>

definition unpack_format :: "dtype \<Rightarrow> bool \<Rightarrow> byte list \<Rightarrow> py_error + json" where
  "unpack_format dt is_signed b =
     (case dt of
        DInt \<Rightarrow> Inr (JInt (if is_signed then from_bytes_big_signed b else from_bytes_big b))
      | DFloat \<Rightarrow> (if length b = 4 then Inr (JFloat (word_of_int (from_bytes_big b)))
                    else Inl StructError)
      | DDouble \<Rightarrow> (if length b = 8 then Inr (JDouble (word_of_int (from_bytes_big b)))
                     else Inl StructError))"

fun collect :: "(py_error + 'a) list \<Rightarrow> py_error + 'a list" where
  "collect [] = Inr []"
| "collect (Inl e # rs) = Inl e"
| "collect (Inr v # rs) = (case collect rs of Inl e \<Rightarrow> Inl e | Inr vs \<Rightarrow> Inr (v # vs))"

text \<open>Every call passes 1, 2, 4 or 8 for \<open>bytes_per_number\<close>.\<close>

definition bytes_to_number :: "byte list \<Rightarrow> nat \<Rightarrow> bool \<Rightarrow> dtype \<Rightarrow> py_error + json list" where
  "bytes_to_number data bytes_per_number is_signed dt =
     (if length data mod bytes_per_number \<noteq> 0 then Inl ValueError_not_divisible
      else collect (map (unpack_format dt is_signed) (chunks bytes_per_number data)))"

section \<open>The output tree\<close>

text \<open>Python's slice \<open>s[a:b]\<close> for \<open>0 \<le> a \<le> b\<close>.\<close>

definition py_slice :: "nat \<Rightarrow> nat \<Rightarrow> 'a list \<Rightarrow> 'a list" where
  "py_slice a b s = take (b - a) (drop a s)"

text \<open>The substring test \<open>k in s\<close> on two strings.\<close>

fun is_substring :: "string \<Rightarrow> string \<Rightarrow> bool" where
  "is_substring k [] = (k = [])"
| "is_substring k (c # cs) = (take (length k) (c # cs) = k \<or> is_substring k cs)"

text \<open>
  \<open>key[0] in item\<close>: a key of the dictionary, a substring of a string, an element of
  a list (a list holds numbers only, none equals a string), and a TypeError on a number.
\<close>

fun py_contains :: "string \<Rightarrow> json \<Rightarrow> py_error + bool" where
  "py_contains k (JKey name t sz r vs) = Inr (k = name)"
| "py_contains k (JStr s) = Inr (is_substring k s)"
| "py_contains k (JList vs) = Inr False"
| "py_contains k (JInt n) = Inl TypeError"
| "py_contains k (JFloat w) = Inl TypeError"
| "py_contains k (JDouble w) = Inl TypeError"

text \<open>The index of the last \<open>True\<close>: the item that \<open>[...][-1]\<close> selects.\<close>

fun last_true :: "bool list \<Rightarrow> nat option" where
  "last_true [] = None"
| "last_true (b # bs) =
     (case last_true bs of
        Some i \<Rightarrow> Some (Suc i)
      | None \<Rightarrow> (if b then Some 0 else None))"

text \<open>
  The traversal of both \<open>json_add_key\<close> and \<open>json_add_value\<close>: for every key of the
  hierarchy, \<open>last_key = [item for item in last_key if key[0] in item][-1][key[0]]["Values"]\<close>,
  and at the end \<open>last_key.append(new)\<close>. The list reached is part of the tree, so
  the append changes the tree at that place.
\<close>

fun append_at :: "string list \<Rightarrow> json \<Rightarrow> json list \<Rightarrow> py_error + json list" where
  "append_at [] new items = Inr (items @ [new])"
| "append_at (k # ks) new items =
     (case collect (map (py_contains k) items) of
        Inl e \<Rightarrow> Inl e
      | Inr bs \<Rightarrow>
          (case last_true bs of
             None \<Rightarrow> Inl IndexError
           | Some i \<Rightarrow>
               (case items ! i of
                  JKey name t sz r vs \<Rightarrow>
                    (case append_at ks new vs of
                       Inl e \<Rightarrow> Inl e
                     | Inr vs' \<Rightarrow> Inr (items[i := JKey name t sz r vs']))
                | _ \<Rightarrow> Inl TypeError)))"

definition json_add_key :: "string \<Rightarrow> string \<Rightarrow> nat \<Rightarrow> nat \<Rightarrow> pstate \<Rightarrow> py_error + pstate" where
  "json_add_key key_name key_type key_size key_repeat s =
     (case append_at (map f_name (hierarchy s)) (JKey key_name key_type key_size key_repeat [])
             (python_json s) of
        Inl e \<Rightarrow> Inl e
      | Inr tree \<Rightarrow>
          Inr (s\<lparr>python_json := tree,
                 hierarchy := hierarchy s @
                   [\<lparr>f_name = key_name, f_type = key_type, f_size = key_size,
                     f_repeat = key_repeat, f_total = key_size * key_repeat,
                     f_remaining = int (ceil_div4 (key_size * key_repeat)) * 4\<rparr>]\<rparr>))"

definition json_add_value :: "json \<Rightarrow> pstate \<Rightarrow> py_error + pstate" where
  "json_add_value v s =
     (case append_at (map f_name (hierarchy s)) v (python_json s) of
        Inl e \<Rightarrow> Inl e
      | Inr tree \<Rightarrow> Inr (s\<lparr>python_json := tree\<rparr>))"

section \<open>handle_types\<close>

text \<open>
  The \<open>if\<close>/\<open>elif\<close> chain on \<open>type_code\<close>: a list of numbers is a \<open>JList\<close>, a
  string a \<open>JStr\<close>.
\<close>

definition numbers :: "py_error + json list \<Rightarrow> py_error + json" where
  "numbers r = (case r of Inl e \<Rightarrow> Inl e | Inr vs \<Rightarrow> Inr (JList vs))"

definition decode_value :: "string \<Rightarrow> byte list \<Rightarrow> py_error + json" where
  "decode_value type_code data =
     (if type_code = ''b'' then numbers (bytes_to_number data 1 True DInt)
      else if type_code = ''B'' then numbers (bytes_to_number data 1 False DInt)
      else if type_code = ''c'' then Inr (JStr (bytes_to_string data))
      else if type_code = ''d'' then numbers (bytes_to_number data 8 False DDouble)
      else if type_code = ''f'' then numbers (bytes_to_number data 4 False DFloat)
      else if type_code = ''j'' then numbers (bytes_to_number data 8 True DInt)
      else if type_code = ''J'' then numbers (bytes_to_number data 8 False DInt)
      else if type_code = ''l'' then numbers (bytes_to_number data 4 True DInt)
      else if type_code = ''L'' then numbers (bytes_to_number data 4 False DInt)
      else if type_code = ''s'' then numbers (bytes_to_number data 2 True DInt)
      else if type_code = ''S'' then numbers (bytes_to_number data 2 False DInt)
      else if type_code = ''U'' then
        (let time_str = bytes_to_string data in
         Inr (JStr (py_slice 4 6 time_str @ ''.'' @ py_slice 2 4 time_str @ ''.20''
                    @ py_slice 0 2 time_str @ '' '' @ py_slice 6 8 time_str @ '':''
                    @ py_slice 8 10 time_str @ '':'' @ py_slice 10 12 time_str @ ''.''
                    @ py_slice 13 16 time_str)))
      else Inl (ValueError_not_implemented type_code))"

text \<open>\<open>value if len(value) > 1 else value[0]\<close>\<close>

fun unwrap_single :: "json \<Rightarrow> py_error + json" where
  "unwrap_single (JList vs) =
     (if length vs > 1 then Inr (JList vs)
      else (case vs of [] \<Rightarrow> Inl IndexError | v # _ \<Rightarrow> Inr v))"
| "unwrap_single (JStr cs) =
     (if length cs > 1 then Inr (JStr cs)
      else (case cs of [] \<Rightarrow> Inl IndexError | c # _ \<Rightarrow> Inr (JStr [c])))"
| "unwrap_single v = Inl TypeError"

definition handle_types :: "pstate \<Rightarrow> py_error + pstate" where
  "handle_types s =
     (if hierarchy s = [] then Inl IndexError
      else
        (case read_bytes (f_size (last (hierarchy s))) s of
           (data, s1) \<Rightarrow>
             (case decode_value (f_type (last (hierarchy s))) data of
                Inl e \<Rightarrow> Inl e
              | Inr v \<Rightarrow>
                  (case unwrap_single v of
                     Inl e \<Rightarrow> Inl e
                   | Inr v' \<Rightarrow>
                       (case json_add_value v' s1 of
                          Inl e \<Rightarrow> Inl e
                        | Inr s2 \<Rightarrow>
                            Inr (s2\<lparr>hierarchy :=
                                   filter (\<lambda>h. f_remaining h \<noteq> 0) (hierarchy s2)\<rparr>))))))"

section \<open>main\<close>

text \<open>\<open>bytes.decode('ascii')\<close> and \<open>str.rstrip('\0')\<close>.\<close>

definition decode_ascii :: "byte list \<Rightarrow> py_error + string" where
  "decode_ascii bs =
     (if list_all (\<lambda>b. b < 0x80) bs then Inr (bytes_to_string bs) else Inl UnicodeDecodeError)"

definition rstrip_nul :: "string \<Rightarrow> string" where
  "rstrip_nul cs = rev (dropWhile (\<lambda>c. c = CHR 0x00) (rev cs))"

text \<open>
  One pass through the body of \<open>while True\<close>: it leaves the loop (\<open>Break\<close>), goes
  round again (\<open>Continue\<close>) or raises.
\<close>

datatype step = Break pstate | Continue pstate | Raise py_error

definition read_header :: "pstate \<Rightarrow> step" where
  "read_header s =
     (case read_bytes 4 s of
        (kb, s1) \<Rightarrow>
          (case decode_ascii kb of
             Inl e \<Rightarrow> Raise e
           | Inr key \<Rightarrow>
               (case read_bytes 1 s1 of
                  (tb, s2) \<Rightarrow>
                    (case (if tb = [0] then Inr ''0'' else decode_ascii tb) of
                       Inl e \<Rightarrow> Raise e
                     | Inr type_code \<Rightarrow>
                         (case read_bytes 1 s2 of
                            (sb, s3) \<Rightarrow>
                              (case read_bytes 2 s3 of
                                 (rb, s4) \<Rightarrow>
                                   (if from_bytes_big sb = 0 \<and> from_bytes_big rb = 0
                                    then Break s4
                                    else
                                      (case json_add_key (rstrip_nul key) type_code
                                              (nat (from_bytes_big sb)) (nat (from_bytes_big rb)) s4 of
                                         Inl e \<Rightarrow> Raise e
                                       | Inr s5 \<Rightarrow> Continue s5))))))))"

definition main_step :: "pstate \<Rightarrow> step" where
  "main_step s =
     (if hierarchy s = [] \<or> f_type (last (hierarchy s)) = ''0''
      then read_header s
      else (case handle_types s of Inl e \<Rightarrow> Raise e | Inr s' \<Rightarrow> Continue s'))"

text \<open>
  The loop can run for ever, so it is given fuel: \<open>None\<close> means that the loop was
  still running after that many passes.
\<close>

fun main_loop :: "nat \<Rightarrow> pstate \<Rightarrow> (py_error + pstate) option" where
  "main_loop 0 s = None"
| "main_loop (Suc n) s =
     (case main_step s of
        Break s' \<Rightarrow> Some (Inr s')
      | Raise e \<Rightarrow> Some (Inl e)
      | Continue s' \<Rightarrow> main_loop n s')"

definition main :: "nat \<Rightarrow> byte list \<Rightarrow> (py_error + json list) option" where
  "main fuel bs = map_option (map_sum id python_json) (main_loop fuel (initial bs))"

section \<open>stream_exporter.py: scale_values and fill_stream_data\<close>

text \<open>
  \<open>round(value / scale, 6)\<close> is float arithmetic, which is not modelled: the functions
  take it as the parameter \<open>rd\<close>, which gives the rounded quotient or the error that
  the division raises.
\<close>

type_synonym round_div = "json \<Rightarrow> json \<Rightarrow> py_error + json"

text \<open>\<open>enumerate(entry)\<close>: the elements of a list, the characters of a string, the key of a dictionary.\<close>

fun py_iter :: "json \<Rightarrow> py_error + json list" where
  "py_iter (JList vs) = Inr vs"
| "py_iter (JStr cs) = Inr (map (\<lambda>c. JStr [c]) cs)"
| "py_iter (JKey name t sz r vs) = Inr [JStr name]"
| "py_iter (JInt n) = Inl TypeError"
| "py_iter (JFloat w) = Inl TypeError"
| "py_iter (JDouble w) = Inl TypeError"

text \<open>The inner loop of \<open>scale_values\<close>, for one entry of \<open>values\<close>.\<close>

definition scale_entry :: "round_div \<Rightarrow> json list \<Rightarrow> json \<Rightarrow> py_error + json list" where
  "scale_entry rd scales entry =
     (case py_iter entry of
        Inl e \<Rightarrow> Inl e
      | Inr vs \<Rightarrow>
          collect (map (\<lambda>(i, v). if scales = [] then Inl ZeroDivisionError
                                  else rd v (scales ! (i mod length scales)))
                       (enumerate 0 vs)))"

definition scale_values :: "round_div \<Rightarrow> json list \<Rightarrow> json list \<Rightarrow> py_error + json list list" where
  "scale_values rd values scales = collect (map (scale_entry rd scales) values)"

text \<open>\<open>item[name][values_key]\<close>; the two spellings of the key \<open>Values\<close> are one field here.\<close>

fun subscript_values :: "json \<Rightarrow> string \<Rightarrow> py_error + json list" where
  "subscript_values (JKey n t sz r vs) name = (if n = name then Inr vs else Inl KeyError)"
| "subscript_values (JStr cs) name = Inl TypeError"
| "subscript_values (JList vs) name = Inl TypeError"
| "subscript_values (JInt n) name = Inl TypeError"
| "subscript_values (JFloat w) name = Inl TypeError"
| "subscript_values (JDouble w) name = Inl TypeError"

text \<open>\<open>list(data.keys())[0]\<close>\<close>

fun first_key :: "json \<Rightarrow> py_error + string" where
  "first_key (JKey n t sz r vs) = Inr n"
| "first_key (JStr cs) = Inl AttributeError"
| "first_key (JList vs) = Inl AttributeError"
| "first_key (JInt n) = Inl AttributeError"
| "first_key (JFloat w) = Inl AttributeError"
| "first_key (JDouble w) = Inl AttributeError"

text \<open>The search for \<open>SCAL\<close> in a stream, up to the \<open>break\<close>.\<close>

fun find_scales :: "json list \<Rightarrow> py_error + json list option" where
  "find_scales [] = Inr None"
| "find_scales (d # ds) =
     (case py_contains ''SCAL'' d of
        Inl e \<Rightarrow> Inl e
      | Inr b \<Rightarrow>
          (if b then (case subscript_values d ''SCAL'' of
                        Inl e \<Rightarrow> Inl e
                      | Inr vs \<Rightarrow> Inr (Some vs))
           else find_scales ds))"

text \<open>\<open>output_json["data"]\<close>: a list for every key; \<open>dict_append\<close> is \<open>out[key].append(x)\<close>.\<close>

type_synonym pydict = "(string \<times> json list) list"

definition dict_append :: "string \<Rightarrow> json \<Rightarrow> pydict \<Rightarrow> pydict" where
  "dict_append key x out = map (\<lambda>(k, vs). if k = key then (k, vs @ [x]) else (k, vs)) out"

fun truthy :: "json list option \<Rightarrow> bool" where
  "truthy None = False"
| "truthy (Some sc) = (sc \<noteq> [])"

text \<open>The body of the second \<open>for data in stream_data\<close> loop.\<close>

definition export_data :: "round_div \<Rightarrow> string \<Rightarrow> json list option \<Rightarrow> json \<Rightarrow> pydict \<Rightarrow> py_error + pydict" where
  "export_data rd stream_name scales d out =
     (case first_key d of
        Inl e \<Rightarrow> Inl e
      | Inr key \<Rightarrow>
          (if key \<noteq> ''SCAL'' \<and> key \<noteq> ''STNM'' \<and> key \<noteq> ''SIUN'' \<and> key \<noteq> ''UNIT'' then
             (if key = stream_name \<and> truthy scales then
                (case map_of out stream_name of
                   None \<Rightarrow> Inl KeyError
                 | Some old \<Rightarrow>
                     (case subscript_values d stream_name of
                        Inl e \<Rightarrow> Inl e
                      | Inr vs \<Rightarrow>
                          (case scale_values rd vs (case scales of Some sc \<Rightarrow> sc | None \<Rightarrow> []) of
                             Inl e \<Rightarrow> Inl e
                           | Inr rows \<Rightarrow> Inr (dict_append stream_name (JList (map JList rows)) out))))
              else
                (case map_of out key of
                   None \<Rightarrow> Inl KeyError
                 | Some old \<Rightarrow>
                     (case subscript_values d key of
                        Inl e \<Rightarrow> Inl e
                      | Inr vs \<Rightarrow> Inr (dict_append key (JList vs) out))))
           else Inr out))"

fun fold_err :: "('a \<Rightarrow> 's \<Rightarrow> py_error + 's) \<Rightarrow> 'a list \<Rightarrow> 's \<Rightarrow> py_error + 's" where
  "fold_err f [] s = Inr s"
| "fold_err f (x # xs) s = (case f x s of Inl e \<Rightarrow> Inl e | Inr s' \<Rightarrow> fold_err f xs s')"

text \<open>The body of \<open>for entry in device["DEVC"][values_key]\<close>; the state is \<open>scales\<close> and the output.\<close>

definition export_entry ::
  "round_div \<Rightarrow> string \<Rightarrow> json \<Rightarrow> json list option \<times> pydict \<Rightarrow> py_error + json list option \<times> pydict" where
  "export_entry rd stream_name entry st =
     (case py_contains ''STRM'' entry of
        Inl e \<Rightarrow> Inl e
      | Inr is_strm \<Rightarrow>
          (if \<not> is_strm then Inr st
           else
             (case subscript_values entry ''STRM'' of
                Inl e \<Rightarrow> Inl e
              | Inr stream_data \<Rightarrow>
                  (if stream_data = [] then Inl IndexError
                   else
                     (case py_contains stream_name (last stream_data) of
                        Inl e \<Rightarrow> Inl e
                      | Inr named \<Rightarrow>
                          (if \<not> named then Inr st
                           else
                             (case (case fst st of None \<Rightarrow> find_scales stream_data
                                    | Some sc \<Rightarrow> Inr (Some sc)) of
                                Inl e \<Rightarrow> Inl e
                              | Inr scales \<Rightarrow>
                                  (case fold_err (export_data rd stream_name scales) stream_data (snd st) of
                                     Inl e \<Rightarrow> Inl e
                                   | Inr out \<Rightarrow> Inr (scales, out)))))))))"

text \<open>The body of \<open>for device in json_data\<close>.\<close>

definition export_device ::
  "round_div \<Rightarrow> string \<Rightarrow> json \<Rightarrow> json list option \<times> pydict \<Rightarrow> py_error + json list option \<times> pydict" where
  "export_device rd stream_name device st =
     (case subscript_values device ''DEVC'' of
        Inl e \<Rightarrow> Inl e
      | Inr entries \<Rightarrow> fold_err (export_entry rd stream_name) entries st)"

definition fill_stream_data :: "round_div \<Rightarrow> pydict \<Rightarrow> json list \<Rightarrow> string \<Rightarrow> py_error + pydict" where
  "fill_stream_data rd output_data json_data stream_name =
     (case fold_err (export_device rd stream_name) json_data (None, output_data) of
        Inl e \<Rightarrow> Inl e
      | Inr st \<Rightarrow> Inr (snd st))"

section \<open>Notions used to state the results\<close>

text \<open>
  \<open>tick_all k hs\<close> takes \<open>k\<close> from the remaining bytes of every frame.
  \<open>asks_padding amount h\<close>: after \<open>amount\<close> more bytes, the remaining bytes of
  \<open>h\<close> are its padding, and that is not zero. \<open>uni\<close> and \<open>adv\<close> relate the state
  before a read to the state after it: \<open>k\<close> bytes read for padding, every frame
  ticked by all that was read since it was visited.
\<close>

definition tick_all :: "int \<Rightarrow> frame list \<Rightarrow> frame list" where
  "tick_all k hs = map (\<lambda>h. h\<lparr>f_remaining := f_remaining h - k\<rparr>) hs"

definition asks_padding :: "nat \<Rightarrow> frame \<Rightarrow> bool" where
  "asks_padding amount h \<longleftrightarrow>
     f_remaining h - int amount = padding_bytes h \<and> padding_bytes h \<noteq> 0"

definition uni :: "nat \<Rightarrow> pstate \<Rightarrow> pstate \<Rightarrow> bool" where
  "uni c s r \<longleftrightarrow>
     file_bytes r = drop c (file_bytes s) \<and> python_json r = python_json s \<and>
     hierarchy r = tick_all (int c) (hierarchy s)"

definition adv :: "nat \<Rightarrow> nat \<Rightarrow> nat \<Rightarrow> pstate \<Rightarrow> pstate \<Rightarrow> bool" where
  "adv i amount k s r \<longleftrightarrow>
     file_bytes r = drop k (file_bytes s) \<and> python_json r = python_json s \<and>
     hierarchy r = tick_all (int k) (take i (hierarchy s))
                   @ tick_all (int amount + int k) (drop i (hierarchy s))"

text \<open>
  \<open>shrunk s' s\<close>: the same frames, none with more bytes remaining. \<open>pending\<close> are the
  frames that can still ask for their padding; their number is the measure of the
  termination proof.
\<close>

definition shrunk :: "pstate \<Rightarrow> pstate \<Rightarrow> bool" where
  "shrunk s' s \<longleftrightarrow>
     length (hierarchy s') = length (hierarchy s) \<and>
     list_all2 (\<lambda>h' h. f_total h' = f_total h \<and> f_remaining h' \<le> f_remaining h)
       (hierarchy s') (hierarchy s)"

definition pending :: "nat \<Rightarrow> nat \<Rightarrow> pstate \<Rightarrow> nat set" where
  "pending amount i s =
     {j. j < length (hierarchy s) \<and> padding_bytes (hierarchy s ! j) \<noteq> 0 \<and>
         (padding_bytes (hierarchy s ! j) < f_remaining (hierarchy s ! j) \<or>
          (amount = 0 \<and> i \<le> j \<and> f_remaining (hierarchy s ! j) = padding_bytes (hierarchy s ! j)))}"

text \<open>
  \<open>pad_sum hs js\<close>: the paddings of the frames \<open>js\<close>, added up; a frame is
  \<open>settled\<close> when it does not stand at its non-zero padding.
\<close>

definition pad_sum :: "frame list \<Rightarrow> nat list \<Rightarrow> nat" where
  "pad_sum hs js = sum_list (map (\<lambda>j. nat (padding_bytes (hs ! j))) js)"

definition settled :: "frame \<Rightarrow> bool" where
  "settled h \<longleftrightarrow> \<not> asks_padding 0 h"

text \<open>
  \<open>fired amount i js s r\<close>: the frames with the indices \<open>js\<close> are those that asked
  for their padding while the loop for \<open>amount\<close> ran from index \<open>i\<close> on the state
  \<open>s\<close> and ended in \<open>r\<close>: each once, each able to reach its padding from \<open>s\<close>,
  each with nothing remaining in \<open>r\<close>, and the first of them is the first frame
  from \<open>i\<close> on that is \<open>amount\<close> bytes away from its padding.
\<close>

definition fired :: "nat \<Rightarrow> nat \<Rightarrow> nat list \<Rightarrow> pstate \<Rightarrow> pstate \<Rightarrow> bool" where
  "fired amount i js s r \<longleftrightarrow>
     distinct js \<and> set js \<subseteq> pending amount i s \<and>
     list_all (\<lambda>j. f_remaining (hierarchy r ! j) \<le> 0) js \<and>
     (if js = [] then \<not> list_ex (asks_padding amount) (drop i (hierarchy s))
      else i \<le> hd js \<and> hd js < length (hierarchy s) \<and>
           asks_padding amount (hierarchy s ! hd js) \<and>
           list_all (\<lambda>h. \<not> asks_padding amount h) (take (hd js - i) (drop i (hierarchy s))))"

section \<open>States and inputs used as examples\<close>

text \<open>
  Two open frames: a container of 6 bytes (padding 2) and, inside it, a leaf of 5 bytes
  (padding 3), both with 5 bytes remaining. A read of 3 bytes brings the container to its
  padding, and the read of that padding brings the leaf to its own.
\<close>

definition cascade :: pstate where
  "cascade =
     \<lparr>file_bytes = [1, 2, 3, 4, 5, 6, 7, 8, 9, 10],
      hierarchy =
        [\<lparr>f_name = ''DEVC'', f_type = ''0'', f_size = 1, f_repeat = 6, f_total = 6, f_remaining = 5\<rparr>,
         \<lparr>f_name = ''GPSU'', f_type = ''c'', f_size = 5, f_repeat = 1, f_total = 5, f_remaining = 5\<rparr>],
      python_json = []\<rparr>"


text \<open>One open container of 16 bytes, 8 of them read, and no byte left in the file.\<close>

definition open_devc :: pstate where
  "open_devc =
     \<lparr>file_bytes = [],
      hierarchy =
        [\<lparr>f_name = ''DEVC'', f_type = ''0'', f_size = 1, f_repeat = 16, f_total = 16, f_remaining = 8\<rparr>],
      python_json = [JKey ''DEVC'' ''0'' 1 16 []]\<rparr>"



text \<open>
  A stand-in for the division that keeps both operands, and a decoded tree with one
  stream that has a scale of two numbers.
\<close>

definition pair_div :: round_div where
  "pair_div v c = Inr (JList [v, c])"

definition gps :: "json list" where
  "gps = [JKey ''DEVC'' ''0'' 1 100
     [JKey ''DVID'' ''L'' 4 1 [JInt 1],
      JKey ''STRM'' ''0'' 1 50
        [JKey ''STNM'' ''c'' 1 3 [JStr ''G'', JStr ''P'', JStr ''S''],
         JKey ''SCAL'' ''l'' 4 2 [JInt 2, JInt 3],
         JKey ''GPS5'' ''l'' 12 2 [JList [JInt 10, JInt 20, JInt 30], JList [JInt 40, JInt 50, JInt 60]]]]]"

section \<open>Termination of read_bytes\<close>

lemma shrunk_refl: "shrunk s s"
  by (simp add: shrunk_def list_all2_same)

lemma shrunk_trans: "shrunk a b \<Longrightarrow> shrunk b c \<Longrightarrow> shrunk a c"
  unfolding shrunk_def
  by (auto simp: list_all2_conv_all_nth) (metis order_trans)

lemma shrunk_file: "shrunk (s\<lparr>file_bytes := f\<rparr>) s"
  by (simp add: shrunk_def list_all2_same)

lemma nth_tick:
  "j < length (hierarchy s) \<Longrightarrow>
   hierarchy (tick i amount s) ! j =
     (if j = i then (hierarchy s ! j)\<lparr>f_remaining := f_remaining (hierarchy s ! j) - int amount\<rparr>
      else hierarchy s ! j)"
  by (simp add: tick_def)

lemma length_tick: "length (hierarchy (tick i amount s)) = length (hierarchy s)"
  by (simp add: tick_def)

lemma shrunk_tick: "shrunk (tick i amount s) s"
  by (simp add: shrunk_def list_all2_conv_all_nth length_tick nth_tick)

lemma finite_pending: "finite (pending amount i s)"
  by (simp add: pending_def)

lemma pending_shrunk: "shrunk s' s \<Longrightarrow> pending amount i s' \<subseteq> pending amount i s"
  unfolding shrunk_def pending_def
  by (auto simp: list_all2_conv_all_nth padding_bytes_def)

lemma pending_Suc: "pending amount (Suc i) s \<subseteq> pending amount i s"
  by (auto simp: pending_def)

lemma read_partial:
  "read_bytes_read_loop_dom (Inl (amount, s)) \<Longrightarrow> shrunk (snd (read_bytes amount s)) s"
  "read_bytes_read_loop_dom (Inr (amount, i, s)) \<Longrightarrow> shrunk (read_loop amount i s) s"
proof (induction amount s and amount i s rule: read_bytes_read_loop.pinduct)
  case (1 amount s)
  then show ?case
    by (simp add: read_bytes.psimps) (metis shrunk_trans shrunk_file)
next
  case (2 amount i s)
  show ?case
    using 2 by (auto simp: read_loop.psimps shrunk_refl intro: shrunk_trans shrunk_tick)
qed

lemma pending_trigger:
  assumes "i < length (hierarchy s)"
    and "f_remaining (hierarchy (tick i amount s) ! i) = padding_bytes (hierarchy (tick i amount s) ! i)"
    and "padding_bytes (hierarchy (tick i amount s) ! i) \<noteq> 0"
  shows "pending (nat (padding_bytes (hierarchy (tick i amount s) ! i))) 0
           ((tick i amount s)\<lparr>file_bytes := f\<rparr>) \<subset> pending amount i s"
proof -
  let ?p = "padding_bytes (hierarchy (tick i amount s) ! i)"
  have pos: "0 < ?p" using assms(3) by (simp add: padding_bytes_def ceil_div4_def)
  have sub: "pending (nat ?p) 0 ((tick i amount s)\<lparr>file_bytes := f\<rparr>) \<subseteq> pending amount i s"
    using pos assms(1)
    by (auto simp: pending_def length_tick nth_tick padding_bytes_def split: if_splits)
  have "i \<in> pending amount i s"
    using assms pos by (auto simp: pending_def nth_tick padding_bytes_def)
  moreover have "i \<notin> pending (nat ?p) 0 ((tick i amount s)\<lparr>file_bytes := f\<rparr>)"
    using assms pos by (auto simp: pending_def length_tick)
  ultimately show ?thesis using sub by blast
qed

termination read_bytes
proof (relation "inv_image (less_than <*lex*> less_than)
    (\<lambda>x. case x of
        Inl (amount, s) \<Rightarrow> (card (pending amount 0 s), Suc (length (hierarchy s)))
      | Inr (amount, i, s) \<Rightarrow> (card (pending amount i s), length (hierarchy s) - i))",
    goal_cases)
  case 1
  show ?case by (intro wf_inv_image wf_lex_prod wf_less_than)
next
  case (2 amount s)
  have "pending amount 0 (s\<lparr>file_bytes := drop amount (file_bytes s)\<rparr>) = pending amount 0 s"
    by (simp add: pending_def)
  then show ?case by simp
next
  case (3 amount i s)
  have "pending (nat (padding_bytes (hierarchy (tick i amount s) ! i))) 0 (tick i amount s)
          \<subset> pending amount i s"
    using pending_trigger [OF 3(1) _ _, of amount "file_bytes (tick i amount s)"] 3 by simp
  then show ?case
    by (simp add: psubset_card_mono finite_pending)
next
  case (4 amount i s)
  let ?s' = "snd (read_bytes (nat (padding_bytes (hierarchy (tick i amount s) ! i))) (tick i amount s))"
  have sh: "shrunk ?s' s"
    using read_partial(1) [OF 4(3)] shrunk_tick shrunk_trans by blast
  have "pending amount (Suc i) ?s' \<subseteq> pending amount i s"
    using pending_shrunk [OF sh] pending_Suc by blast
  then have "card (pending amount (Suc i) ?s') \<le> card (pending amount i s)"
    by (simp add: card_mono finite_pending)
  moreover have "length (hierarchy ?s') = length (hierarchy s)"
    using sh by (simp add: shrunk_def)
  ultimately show ?case using 4(1) by auto
next
  case (5 amount i s)
  have "pending amount (Suc i) (tick i amount s) \<subseteq> pending amount i s"
    using pending_shrunk [OF shrunk_tick] pending_Suc by blast
  then have "card (pending amount (Suc i) (tick i amount s)) \<le> card (pending amount i s)"
    by (simp add: card_mono finite_pending)
  then show ?case using 5(1) by (auto simp: length_tick)
qed

declare read_bytes.simps [simp del] read_loop.simps [simp del]

section \<open>What a read does to the frames\<close>

lemma padding_bytes_upd [simp]:
  "padding_bytes (h\<lparr>f_remaining := r\<rparr>) = padding_bytes h"
  by (simp add: padding_bytes_def)

lemma padding_bytes_range: "0 \<le> padding_bytes h \<and> padding_bytes h < 4"
  unfolding padding_bytes_def ceil_div4_def by linarith

lemma tick_all_tick_all: "tick_all a (tick_all b hs) = tick_all (b + a) hs"
  by (simp add: tick_all_def algebra_simps)

lemma tick_all_append: "tick_all a (xs @ ys) = tick_all a xs @ tick_all a ys"
  by (simp add: tick_all_def)

lemma take_tick_all: "take i (tick_all a hs) = tick_all a (take i hs)"
  by (simp add: tick_all_def take_map)

lemma drop_tick_all: "drop i (tick_all a hs) = tick_all a (drop i hs)"
  by (simp add: tick_all_def drop_map)

lemma adv_done: "\<not> i < length (hierarchy s) \<Longrightarrow> adv i amount 0 s s"
  by (simp add: adv_def tick_all_def map_idI)

lemma hierarchy_tick:
  "i < length (hierarchy s) \<Longrightarrow>
   hierarchy (tick i amount s) =
     take i (hierarchy s) @ tick_all (int amount) [hierarchy s ! i] @ drop (Suc i) (hierarchy s)"
  by (simp add: tick_def tick_all_def upd_conv_take_nth_drop)

lemma adv_tick:
  assumes "i < length (hierarchy s)" and "adv (Suc i) amount k (tick i amount s) r"
  shows "adv i amount k s r"
proof -
  have d: "drop i (hierarchy s) = hierarchy s ! i # drop (Suc i) (hierarchy s)"
    using assms(1) by (simp add: Cons_nth_drop_Suc)
  have t: "take (Suc i) (hierarchy (tick i amount s))
             = take i (hierarchy s) @ tick_all (int amount) [hierarchy s ! i]"
    using assms(1) by (simp add: hierarchy_tick tick_all_def)
  have dd: "drop (Suc i) (hierarchy (tick i amount s)) = drop (Suc i) (hierarchy s)"
    using assms(1) by (simp add: tick_def)
  have f: "file_bytes (tick i amount s) = file_bytes s" "python_json (tick i amount s) = python_json s"
    by (simp_all add: tick_def)
  show ?thesis
    using assms(2) unfolding adv_def t dd f d
    by (simp add: tick_all_append tick_all_tick_all) (simp add: tick_all_def)
qed

lemma adv_uni:
  assumes "uni c s1 s2" and "adv i amount k s2 r"
  shows "adv i amount (c + k) s1 r"
  using assms unfolding adv_def uni_def
  by (simp add: take_tick_all drop_tick_all tick_all_tick_all algebra_simps)

lemma uni_adv:
  assumes "adv 0 amount k (s\<lparr>file_bytes := drop amount (file_bytes s)\<rparr>) r"
  shows "uni (amount + k) s r"
  using assms unfolding adv_def uni_def
  by (simp add: algebra_simps tick_all_def)

lemma read_shape:
  "\<exists>k. uni (amount + k) s (snd (read_bytes amount s))
      \<and> (k = 0 \<longleftrightarrow> \<not> list_ex (asks_padding amount) (hierarchy s))"
  "\<exists>k. adv i amount k s (read_loop amount i s)
      \<and> (k = 0 \<longleftrightarrow> \<not> list_ex (asks_padding amount) (drop i (hierarchy s)))"
proof (induction amount s and amount i s rule: read_bytes_read_loop.induct)
  case (1 amount s)
  let ?s0 = "s\<lparr>file_bytes := drop amount (file_bytes s)\<rparr>"
  from 1 obtain k where k: "adv 0 amount k ?s0 (read_loop amount 0 ?s0)"
    "k = 0 \<longleftrightarrow> \<not> list_ex (asks_padding amount) (drop 0 (hierarchy ?s0))"
    by blast
  have "uni (amount + k) s (snd (read_bytes amount s))"
    using uni_adv [OF k(1)] by (simp add: read_bytes.simps [of amount s])
  then show ?case using k(2) by auto
next
  case (2 amount i s)
  let ?s1 = "tick i amount s"
  let ?h = "hierarchy ?s1 ! i"
  let ?p = "padding_bytes ?h"
  show ?case
  proof (cases "i < length (hierarchy s)")
    case False
    then have "read_loop amount i s = s"
      by (simp add: read_loop.simps [of amount i s])
    then show ?thesis using adv_done [OF False] False by auto
  next
    case inb: True
    have d: "drop i (hierarchy s) = hierarchy s ! i # drop (Suc i) (hierarchy s)"
      using inb by (simp add: Cons_nth_drop_Suc)
    have hi: "asks_padding amount (hierarchy s ! i) \<longleftrightarrow> f_remaining ?h = ?p \<and> ?p \<noteq> 0"
      using inb by (simp add: asks_padding_def nth_tick)
    have dd: "drop (Suc i) (hierarchy ?s1) = drop (Suc i) (hierarchy s)"
      by (simp add: tick_def)
    show ?thesis
    proof (cases "f_remaining ?h = ?p \<and> ?p \<noteq> 0")
      case trig: True
      let ?s2 = "snd (read_bytes (nat ?p) ?s1)"
      have eq: "read_loop amount i s = read_loop amount (Suc i) ?s2"
        using inb trig by (subst read_loop.simps) simp
      have ppos: "0 < nat ?p" using trig padding_bytes_range [of ?h] by linarith
      from 2(1) [OF inb trig] obtain k1 where k1: "uni (nat ?p + k1) ?s1 ?s2"
        by blast
      from 2(2) [OF inb trig] obtain k2 where k2: "adv (Suc i) amount k2 ?s2 (read_loop amount (Suc i) ?s2)"
        by blast
      have "adv i amount (nat ?p + k1 + k2) s (read_loop amount i s)"
        unfolding eq by (rule adv_tick [OF inb adv_uni [OF k1 k2]])
      moreover have "list_ex (asks_padding amount) (drop i (hierarchy s))"
        using trig hi d by simp
      ultimately show ?thesis using ppos by (intro exI [of _ "nat ?p + k1 + k2"]) simp
    next
      case notrig: False
      have eq: "read_loop amount i s = read_loop amount (Suc i) ?s1"
        using inb notrig by (subst read_loop.simps) auto
      from 2(3) [OF inb notrig] obtain k2 where k2:
        "adv (Suc i) amount k2 ?s1 (read_loop amount (Suc i) ?s1)"
        "k2 = 0 \<longleftrightarrow> \<not> list_ex (asks_padding amount) (drop (Suc i) (hierarchy ?s1))"
        by blast
      have "adv i amount k2 s (read_loop amount i s)"
        unfolding eq by (rule adv_tick [OF inb k2(1)])
      moreover have "k2 = 0 \<longleftrightarrow> \<not> list_ex (asks_padding amount) (drop i (hierarchy s))"
        using k2(2) notrig hi unfolding dd by (subst d) simp
      ultimately show ?thesis by blast
    qed
  qed
qed

lemma read_hierarchy_only:
  "hierarchy t = hierarchy s \<Longrightarrow>
     hierarchy (snd (read_bytes amount t)) = hierarchy (snd (read_bytes amount s))"
  "hierarchy t = hierarchy s \<Longrightarrow>
     hierarchy (read_loop amount i t) = hierarchy (read_loop amount i s)"
proof (induction amount s and amount i s arbitrary: t and t rule: read_bytes_read_loop.induct)
  case (1 amount s)
  have "hierarchy (t\<lparr>file_bytes := drop amount (file_bytes t)\<rparr>)
          = hierarchy (s\<lparr>file_bytes := drop amount (file_bytes s)\<rparr>)"
    using 1(2) by simp
  from 1(1) [OF this] show ?case
    by (simp add: read_bytes.simps [of amount s] read_bytes.simps [of amount t])
next
  case (2 amount i s)
  have ht: "hierarchy (tick i amount t) = hierarchy (tick i amount s)"
    using 2(4) by (simp add: tick_def)
  show ?case
  proof (cases "i < length (hierarchy s)")
    case False
    then show ?thesis using 2(4)
      by (simp add: read_loop.simps [of amount i s] read_loop.simps [of amount i t])
  next
    case inb: True
    let ?p = "padding_bytes (hierarchy (tick i amount s) ! i)"
    show ?thesis
    proof (cases "f_remaining (hierarchy (tick i amount s) ! i) = ?p \<and> ?p \<noteq> 0")
      case trig: True
      have a: "hierarchy (snd (read_bytes (nat ?p) (tick i amount t)))
                = hierarchy (snd (read_bytes (nat ?p) (tick i amount s)))"
        by (rule 2(1) [OF inb trig ht])
      have "read_loop amount i s = read_loop amount (Suc i) (snd (read_bytes (nat ?p) (tick i amount s)))"
        using inb trig by (subst read_loop.simps) simp
      moreover have "read_loop amount i t = read_loop amount (Suc i) (snd (read_bytes (nat ?p) (tick i amount t)))"
        using inb trig 2(4) ht by (subst read_loop.simps) simp
      ultimately show ?thesis using 2(2) [OF inb trig a] by simp
    next
      case notrig: False
      have "read_loop amount i s = read_loop amount (Suc i) (tick i amount s)"
        using inb notrig by (subst read_loop.simps) auto
      moreover have "read_loop amount i t = read_loop amount (Suc i) (tick i amount t)"
        using inb notrig 2(4) ht by (subst read_loop.simps) auto
      ultimately show ?thesis using 2(3) [OF inb notrig ht] by simp
    qed
  qed
qed

section \<open>The padding and the frames that ask for it\<close>

lemma ceil_div4_ceiling: "int (ceil_div4 n) = \<lceil>real n / 4\<rceil>"
proof -
  have "\<lceil>real n / 4\<rceil> = \<lceil>of_int (int n) / (of_int 4 :: real)\<rceil>" by simp
  also have "\<dots> = - (- int n div 4)" by (rule ceiling_divide_eq_div)
  also have "\<dots> = int ((n + 3) div 4)" by (simp add: zdiv_int)
  finally show ?thesis by (simp add: ceil_div4_def)
qed

lemma padding_bytes_ceiling:
  "padding_bytes h = \<lceil>real (f_total h) / 4\<rceil> * 4 - int (f_total h)"
  by (simp add: padding_bytes_def ceil_div4_ceiling)

lemma adv_shrunk: "adv i amount k s r \<Longrightarrow> shrunk r s"
  unfolding adv_def shrunk_def
  by (auto simp: list_all2_conv_all_nth tick_all_def nth_append min_def)

lemma uni_shrunk: "uni c s r \<Longrightarrow> shrunk r s"
  unfolding uni_def shrunk_def
  by (auto simp: list_all2_conv_all_nth tick_all_def)

lemma shrunk_nth:
  "shrunk r s \<Longrightarrow> j < length (hierarchy s) \<Longrightarrow>
     f_total (hierarchy r ! j) = f_total (hierarchy s ! j) \<and>
     f_remaining (hierarchy r ! j) \<le> f_remaining (hierarchy s ! j) \<and>
     padding_bytes (hierarchy r ! j) = padding_bytes (hierarchy s ! j)"
  unfolding shrunk_def by (auto simp: list_all2_conv_all_nth padding_bytes_def)

lemma pad_sum_shrunk:
  assumes "shrunk r s" and "\<forall>j \<in> set js. j < length (hierarchy s)"
  shows "pad_sum (hierarchy r) js = pad_sum (hierarchy s) js"
  unfolding pad_sum_def
  by (rule arg_cong [of _ _ sum_list], rule map_cong) (use assms shrunk_nth in auto)

lemma pending_bound: "j \<in> pending amount i s \<Longrightarrow> j < length (hierarchy s)"
  by (simp add: pending_def)

lemma pending_positive:
  "j \<in> pending amount i s \<Longrightarrow> 0 < f_remaining (hierarchy s ! j)"
  using padding_bytes_range [of "hierarchy s ! j"] by (auto simp: pending_def)

lemma fired_file: "fired amount i js (s\<lparr>file_bytes := f\<rparr>) r = fired amount i js s r"
  by (simp add: fired_def pending_def)

lemma fired_done: "\<not> i < length (hierarchy s) \<Longrightarrow> fired amount i [] s s"
  by (simp add: fired_def)

lemma asks_tick:
  "i < length (hierarchy s) \<Longrightarrow>
     asks_padding amount (hierarchy s ! i) \<longleftrightarrow>
       f_remaining (hierarchy (tick i amount s) ! i) = padding_bytes (hierarchy (tick i amount s) ! i)
       \<and> padding_bytes (hierarchy (tick i amount s) ! i) \<noteq> 0"
  by (simp add: asks_padding_def nth_tick)

lemma drop_tick_Suc: "drop (Suc i) (hierarchy (tick i amount s)) = drop (Suc i) (hierarchy s)"
  by (simp add: tick_def)

lemma fired_skip:
  assumes inb: "i < length (hierarchy s)"
    and no: "\<not> asks_padding amount (hierarchy s ! i)"
    and f: "fired amount (Suc i) js (tick i amount s) r"
  shows "fired amount i js s r"
proof -
  let ?hs = "hierarchy s"
  have d: "drop i ?hs = ?hs ! i # drop (Suc i) ?hs"
    using inb by (simp add: Cons_nth_drop_Suc)
  have "pending amount (Suc i) (tick i amount s) \<subseteq> pending amount (Suc i) s"
    by (rule pending_shrunk [OF shrunk_tick])
  then have sub: "set js \<subseteq> pending amount i s"
    using f pending_Suc [of amount i s] by (auto simp: fired_def)
  show ?thesis
  proof (cases "js = []")
    case True
    then show ?thesis using f no sub by (simp add: fired_def drop_tick_Suc d)
  next
    case False
    from f False have h: "Suc i \<le> hd js" "hd js < length ?hs"
      "asks_padding amount (hierarchy (tick i amount s) ! hd js)"
      "list_all (\<lambda>h. \<not> asks_padding amount h) (take (hd js - Suc i) (drop (Suc i) ?hs))"
      by (simp_all add: fired_def length_tick drop_tick_Suc)
    have a: "asks_padding amount (?hs ! hd js)"
      using h(1,2,3) by (simp add: nth_tick)
    have t: "take (hd js - i) (drop i ?hs) = ?hs ! i # take (hd js - Suc i) (drop (Suc i) ?hs)"
      using h(1) by (subst d) (simp add: take_Cons' Suc_le_eq)
    show ?thesis
      using f False sub h a no unfolding fired_def t by simp
  qed
qed

lemma fired_trigger:
  assumes inb: "i < length (hierarchy s)"
    and ask: "asks_padding amount (hierarchy s ! i)"
    and u: "uni (nat (padding_bytes (hierarchy s ! i)) + k1) (tick i amount s) s2"
    and f1: "fired (nat (padding_bytes (hierarchy s ! i))) 0 js1 (tick i amount s) s2"
    and a: "adv (Suc i) amount k2 s2 r"
    and f2: "fired amount (Suc i) js2 s2 r"
  shows "fired amount i (i # js1 @ js2) s r"
proof -
  let ?s1 = "tick i amount s"
  let ?p = "padding_bytes (hierarchy s ! i)"
  have ppos: "0 < ?p" using ask padding_bytes_range [of "hierarchy s ! i"]
    by (auto simp: asks_padding_def)
  have sh21: "shrunk s2 ?s1" by (rule uni_shrunk [OF u])
  have sh2: "shrunk s2 s" by (rule shrunk_trans [OF sh21 shrunk_tick])
  have shr: "shrunk r s2" by (rule adv_shrunk [OF a])
  have len2: "length (hierarchy s2) = length (hierarchy s)" using sh2 by (simp add: shrunk_def)
  have rem1: "f_remaining (hierarchy ?s1 ! i) = ?p" "padding_bytes (hierarchy ?s1 ! i) = ?p"
    using ask inb by (simp_all add: asks_padding_def nth_tick)
  have "hierarchy s2 ! i = (hierarchy ?s1 ! i)\<lparr>f_remaining := f_remaining (hierarchy ?s1 ! i)
          - int (nat ?p + k1)\<rparr>"
    using u inb by (simp add: uni_def tick_all_def length_tick)
  then have rem2: "f_remaining (hierarchy s2 ! i) \<le> 0" "padding_bytes (hierarchy s2 ! i) = ?p"
    using rem1 ppos by simp_all
  have in1: "set js1 \<subseteq> pending (nat ?p) 0 ?s1" and in2: "set js2 \<subseteq> pending amount (Suc i) s2"
    using f1 f2 by (simp_all add: fired_def)
  have z1: "\<And>j. j \<in> set js1 \<Longrightarrow> f_remaining (hierarchy s2 ! j) \<le> 0"
    using f1 by (simp add: fired_def list_all_iff)
  have z2: "\<And>j. j \<in> set js2 \<Longrightarrow> f_remaining (hierarchy r ! j) \<le> 0"
    using f2 by (simp add: fired_def list_all_iff)
  have n1: "i \<notin> set js1"
  proof
    assume "i \<in> set js1"
    then have "i \<in> pending (nat ?p) 0 ?s1" using in1 by blast
    then show False using rem1 ppos by (simp add: pending_def)
  qed
  have n2: "i \<notin> set js2"
  proof
    assume "i \<in> set js2"
    then have "0 < f_remaining (hierarchy s2 ! i)" using in2 pending_positive by blast
    then show False using rem2 by simp
  qed
  have n12: "set js1 \<inter> set js2 = {}"
  proof (rule ccontr)
    assume "set js1 \<inter> set js2 \<noteq> {}"
    then obtain j where j: "j \<in> set js1" "j \<in> set js2" by blast
    then have "0 < f_remaining (hierarchy s2 ! j)" using in2 pending_positive by blast
    then show False using z1 [OF j(1)] by simp
  qed
  have dist: "distinct (i # js1 @ js2)"
    using f1 f2 n1 n2 n12 by (simp add: fired_def)
  have pi: "i \<in> pending amount i s"
    using ask inb ppos by (auto simp: pending_def asks_padding_def)
  have p1: "pending (nat ?p) 0 ?s1 \<subseteq> pending amount i s"
  proof -
    have "pending (nat ?p) 0 (?s1\<lparr>file_bytes := file_bytes ?s1\<rparr>) \<subset> pending amount i s"
      using pending_trigger [OF inb, of amount "file_bytes ?s1"] rem1 ppos by simp
    then show ?thesis by auto
  qed
  have "pending amount (Suc i) s2 \<subseteq> pending amount (Suc i) s"
    by (rule pending_shrunk [OF sh2])
  then have p2: "pending amount (Suc i) s2 \<subseteq> pending amount i s"
    using pending_Suc [of amount i s] by blast
  have sub: "set (i # js1 @ js2) \<subseteq> pending amount i s"
    using pi p1 p2 in1 in2 by auto
  have zr: "list_all (\<lambda>j. f_remaining (hierarchy r ! j) \<le> 0) (i # js1 @ js2)"
  proof -
    have "f_remaining (hierarchy r ! j) \<le> 0" if "j \<in> set (i # js1 @ js2)" for j
    proof -
      have jb: "j < length (hierarchy s2)"
        using that sub pending_bound len2 by (metis subsetD)
      have le: "f_remaining (hierarchy r ! j) \<le> f_remaining (hierarchy s2 ! j)"
        using shrunk_nth [OF shr jb] by simp
      from that consider "j = i" | "j \<in> set js1" | "j \<in> set js2" by auto
      then show ?thesis
      proof cases
        case 1 then show ?thesis using le rem2 by simp
      next
        case 2 then show ?thesis using le z1 by fastforce
      next
        case 3 then show ?thesis using z2 by simp
      qed
    qed
    then show ?thesis by (simp add: list_all_iff)
  qed
  show ?thesis
    unfolding fired_def using dist sub zr inb ask by simp
qed

lemma pad_sum_Cons_append:
  "pad_sum hs (i # js1 @ js2) = nat (padding_bytes (hs ! i)) + pad_sum hs js1 + pad_sum hs js2"
  by (simp add: pad_sum_def)

lemma fired_bound:
  "fired amount i js s r \<Longrightarrow> \<forall>j \<in> set js. j < length (hierarchy s)"
  using pending_bound by (auto simp: fired_def)

lemma read_fired:
  "\<exists>js. uni (amount + pad_sum (hierarchy s) js) s (snd (read_bytes amount s))
      \<and> fired amount 0 js s (snd (read_bytes amount s))"
  "\<exists>js. adv i amount (pad_sum (hierarchy s) js) s (read_loop amount i s)
      \<and> fired amount i js s (read_loop amount i s)"
proof (induction amount s and amount i s rule: read_bytes_read_loop.induct)
  case (1 amount s)
  let ?s0 = "s\<lparr>file_bytes := drop amount (file_bytes s)\<rparr>"
  from 1 obtain js where js: "adv 0 amount (pad_sum (hierarchy ?s0) js) ?s0 (read_loop amount 0 ?s0)"
    "fired amount 0 js ?s0 (read_loop amount 0 ?s0)"
    by blast
  have r: "snd (read_bytes amount s) = read_loop amount 0 ?s0"
    by (simp add: read_bytes.simps [of amount s])
  have "uni (amount + pad_sum (hierarchy s) js) s (snd (read_bytes amount s))"
    unfolding r using uni_adv [OF js(1)] by simp
  moreover have "fired amount 0 js s (snd (read_bytes amount s))"
    unfolding r using js(2) by (simp add: fired_file)
  ultimately show ?case by blast
next
  case (2 amount i s)
  let ?s1 = "tick i amount s"
  let ?h = "hierarchy ?s1 ! i"
  let ?p = "padding_bytes ?h"
  show ?case
  proof (cases "i < length (hierarchy s)")
    case False
    then have "read_loop amount i s = s"
      by (simp add: read_loop.simps [of amount i s])
    moreover have "pad_sum (hierarchy s) [] = 0" by (simp add: pad_sum_def)
    ultimately show ?thesis
      using adv_done [OF False, of amount] fired_done [OF False, of amount] by (intro exI [of _ "[]"]) simp
  next
    case inb: True
    have pp: "?p = padding_bytes (hierarchy s ! i)" using inb by (simp add: nth_tick)
    show ?thesis
    proof (cases "f_remaining ?h = ?p \<and> ?p \<noteq> 0")
      case trig: True
      let ?s2 = "snd (read_bytes (nat ?p) ?s1)"
      have ask: "asks_padding amount (hierarchy s ! i)"
        using trig asks_tick [OF inb] by simp
      have eq: "read_loop amount i s = read_loop amount (Suc i) ?s2"
        using inb trig by (subst read_loop.simps) simp
      from 2(1) [OF inb trig] obtain js1 where j1:
        "uni (nat ?p + pad_sum (hierarchy ?s1) js1) ?s1 ?s2" "fired (nat ?p) 0 js1 ?s1 ?s2"
        by blast
      from 2(2) [OF inb trig] obtain js2 where j2:
        "adv (Suc i) amount (pad_sum (hierarchy ?s2) js2) ?s2 (read_loop amount (Suc i) ?s2)"
        "fired amount (Suc i) js2 ?s2 (read_loop amount (Suc i) ?s2)"
        by blast
      have sh2: "shrunk ?s2 s"
        by (rule shrunk_trans [OF uni_shrunk [OF j1(1)] shrunk_tick])
      have b1: "\<forall>j \<in> set js1. j < length (hierarchy s)"
        using fired_bound [OF j1(2)] by (simp add: length_tick)
      have b2: "\<forall>j \<in> set js2. j < length (hierarchy s)"
        using fired_bound [OF j2(2)] sh2 by (simp add: shrunk_def)
      have s1: "pad_sum (hierarchy ?s1) js1 = pad_sum (hierarchy s) js1"
        by (rule pad_sum_shrunk [OF shrunk_tick b1])
      have s2: "pad_sum (hierarchy ?s2) js2 = pad_sum (hierarchy s) js2"
        by (rule pad_sum_shrunk [OF sh2 b2])
      have "adv i amount (nat ?p + pad_sum (hierarchy ?s1) js1 + pad_sum (hierarchy ?s2) js2) s
              (read_loop amount i s)"
        unfolding eq by (rule adv_tick [OF inb adv_uni [OF j1(1) j2(1)]])
      then have "adv i amount (nat ?p + pad_sum (hierarchy s) js1 + pad_sum (hierarchy s) js2) s
              (read_loop amount i s)"
        unfolding s1 s2 .
      then have A: "adv i amount (pad_sum (hierarchy s) (i # js1 @ js2)) s (read_loop amount i s)"
        by (simp add: pad_sum_Cons_append pp)
      have B: "fired amount i (i # js1 @ js2) s (read_loop amount i s)"
        unfolding eq
        using fired_trigger [OF inb ask _ _ j2(1) j2(2), of "pad_sum (hierarchy ?s1) js1" js1] j1
        by (simp add: pp)
      from A B show ?thesis by blast
    next
      case notrig: False
      have no: "\<not> asks_padding amount (hierarchy s ! i)"
        using notrig asks_tick [OF inb] by simp
      have eq: "read_loop amount i s = read_loop amount (Suc i) ?s1"
        using inb notrig by (subst read_loop.simps) auto
      from 2(3) [OF inb notrig] obtain js where js:
        "adv (Suc i) amount (pad_sum (hierarchy ?s1) js) ?s1 (read_loop amount (Suc i) ?s1)"
        "fired amount (Suc i) js ?s1 (read_loop amount (Suc i) ?s1)"
        by blast
      have b: "\<forall>j \<in> set js. j < length (hierarchy s)"
        using fired_bound [OF js(2)] by (simp add: length_tick)
      have "pad_sum (hierarchy ?s1) js = pad_sum (hierarchy s) js"
        by (rule pad_sum_shrunk [OF shrunk_tick b])
      then have "adv i amount (pad_sum (hierarchy s) js) s (read_loop amount i s)"
        unfolding eq using adv_tick [OF inb js(1)] by simp
      moreover have "fired amount i js s (read_loop amount i s)"
        unfolding eq by (rule fired_skip [OF inb no js(2)])
      ultimately show ?thesis by blast
    qed
  qed
qed

lemma settled_tick:
  "i < length (hierarchy s) \<Longrightarrow> \<not> asks_padding amount (hierarchy s ! i) \<Longrightarrow>
     settled (hierarchy (tick i amount s) ! i)"
  by (simp add: settled_def asks_padding_def nth_tick)

lemma take_Suc_tick:
  "i < length (hierarchy s) \<Longrightarrow>
     take (Suc i) (hierarchy (tick i amount s))
       = take i (hierarchy s) @ [hierarchy (tick i amount s) ! i]"
  by (simp add: take_Suc_conv_app_nth length_tick) (simp add: tick_def)

lemma read_settled:
  "list_all settled (hierarchy (snd (read_bytes amount s)))"
  "list_all settled (take i (hierarchy s)) \<Longrightarrow> list_all settled (hierarchy (read_loop amount i s))"
proof (induction amount s and amount i s rule: read_bytes_read_loop.induct)
  case (1 amount s)
  have "list_all settled (take 0 (hierarchy (s\<lparr>file_bytes := drop amount (file_bytes s)\<rparr>)))"
    by simp
  from 1 [OF this] show ?case by (simp add: read_bytes.simps [of amount s])
next
  case (2 amount i s)
  let ?s1 = "tick i amount s"
  let ?p = "padding_bytes (hierarchy ?s1 ! i)"
  show ?case
  proof (cases "i < length (hierarchy s)")
    case False
    then show ?thesis using 2(4) by (simp add: read_loop.simps [of amount i s])
  next
    case inb: True
    show ?thesis
    proof (cases "f_remaining (hierarchy ?s1 ! i) = ?p \<and> ?p \<noteq> 0")
      case trig: True
      let ?s2 = "snd (read_bytes (nat ?p) ?s1)"
      have eq: "read_loop amount i s = read_loop amount (Suc i) ?s2"
        using inb trig by (subst read_loop.simps) simp
      have "list_all settled (hierarchy ?s2)" by (rule 2(1) [OF inb trig])
      then have "list_all settled (take (Suc i) (hierarchy ?s2))"
        by (auto simp: list_all_iff dest: in_set_takeD)
      from 2(2) [OF inb trig this] show ?thesis unfolding eq .
    next
      case notrig: False
      have no: "\<not> asks_padding amount (hierarchy s ! i)"
        using notrig asks_tick [OF inb] by simp
      have eq: "read_loop amount i s = read_loop amount (Suc i) ?s1"
        using inb notrig by (subst read_loop.simps) auto
      have "list_all settled (take (Suc i) (hierarchy ?s1))"
        using 2(4) settled_tick [OF inb no] by (simp add: take_Suc_tick [OF inb])
      from 2(3) [OF inb notrig this] show ?thesis unfolding eq .
    qed
  qed
qed

lemma int_pad_sum: "int (pad_sum hs js) = (\<Sum>j\<leftarrow>js. padding_bytes (hs ! j))"
proof (induction js)
  case Nil
  then show ?case by (simp add: pad_sum_def)
next
  case (Cons j js)
  then show ?case using padding_bytes_range [of "hs ! j"] by (simp add: pad_sum_def)
qed

lemma nat_pad_sum: "nat (\<Sum>j\<leftarrow>js. padding_bytes (hs ! j)) = pad_sum hs js"
  using int_pad_sum [of hs js] by simp


lemma fst_read_bytes: "fst (read_bytes n s) = take n (file_bytes s)"
  by (simp add: read_bytes.simps [of n s])

lemma read_bytes_parts:
  "\<exists>k. file_bytes (snd (read_bytes n s)) = drop (n + k) (file_bytes s)
      \<and> python_json (snd (read_bytes n s)) = python_json s
      \<and> hierarchy (snd (read_bytes n s)) = tick_all (int n + int k) (hierarchy s)
      \<and> (k = 0 \<longleftrightarrow> \<not> list_ex (asks_padding n) (hierarchy s))"
  using read_shape(1) [of n s] unfolding uni_def by auto

lemma read_bytes_quiet:
  assumes "\<not> list_ex (asks_padding n) (hierarchy s)"
  shows "read_bytes n s =
           (take n (file_bytes s),
            s\<lparr>file_bytes := drop n (file_bytes s), hierarchy := tick_all (int n) (hierarchy s)\<rparr>)"
proof -
  from read_bytes_parts [of n s] assms
  have "file_bytes (snd (read_bytes n s)) = drop n (file_bytes s)"
    "python_json (snd (read_bytes n s)) = python_json s"
    "hierarchy (snd (read_bytes n s)) = tick_all (int n) (hierarchy s)"
    by auto
  then have "snd (read_bytes n s)
      = s\<lparr>file_bytes := drop n (file_bytes s), hierarchy := tick_all (int n) (hierarchy s)\<rparr>"
    by (intro pstate.equality) simp_all
  then show ?thesis using fst_read_bytes [of n s] by (metis prod.collapse)
qed

lemma no_padding_quiet:
  "list_all (\<lambda>h. padding_bytes h = 0) hs \<Longrightarrow> \<not> list_ex (asks_padding n) hs"
  by (induction hs) (auto simp: asks_padding_def)

lemma no_padding_tick_all:
  "list_all (\<lambda>h. padding_bytes h = 0) (tick_all k hs) = list_all (\<lambda>h. padding_bytes h = 0) hs"
  by (induction hs) (auto simp: tick_all_def)

lemma read_bytes_aligned:
  assumes "list_all (\<lambda>h. padding_bytes h = 0) (hierarchy s)"
  shows "read_bytes n s =
           (take n (file_bytes s),
            s\<lparr>file_bytes := drop n (file_bytes s), hierarchy := tick_all (int n) (hierarchy s)\<rparr>)"
  by (rule read_bytes_quiet [OF no_padding_quiet [OF assms]])

lemma read_bytes_at_end:
  assumes "file_bytes s = []"
  shows "fst (read_bytes n s) = [] \<and> file_bytes (snd (read_bytes n s)) = []
         \<and> python_json (snd (read_bytes n s)) = python_json s"
  using read_bytes_parts [of n s] fst_read_bytes [of n s] assms by auto

lemma read_header_at_end:
  assumes "file_bytes s = []"
  shows "\<exists>s'. read_header s = Break s' \<and> python_json s' = python_json s"
proof -
  obtain kb s1 where r1: "read_bytes 4 s = (kb, s1)" by (cases "read_bytes 4 s")
  have a1: "kb = []" "file_bytes s1 = []" "python_json s1 = python_json s"
    using read_bytes_at_end [OF assms, of 4] r1 by simp_all
  obtain tb s2 where r2: "read_bytes 1 s1 = (tb, s2)" by (cases "read_bytes 1 s1")
  have a2: "tb = []" "file_bytes s2 = []" "python_json s2 = python_json s1"
    using read_bytes_at_end [OF a1(2), of 1] r2 by simp_all
  obtain sb s3 where r3: "read_bytes 1 s2 = (sb, s3)" by (cases "read_bytes 1 s2")
  have a3: "sb = []" "file_bytes s3 = []" "python_json s3 = python_json s2"
    using read_bytes_at_end [OF a2(2), of 1] r3 by simp_all
  obtain rb s4 where r4: "read_bytes 2 s3 = (rb, s4)" by (cases "read_bytes 2 s3")
  have a4: "rb = []" "file_bytes s4 = []" "python_json s4 = python_json s3"
    using read_bytes_at_end [OF a3(2), of 2] r4 by simp_all
  have "read_header s = Break s4"
    unfolding read_header_def r1 using r2 r3 r4 a1(1) a2(1) a3(1) a4(1)
    by (simp add: decode_ascii_def bytes_to_string_def from_bytes_big_def)
  then show ?thesis using a1 a2 a3 a4 by simp
qed

section \<open>The byte cursor\<close>

text \<open>
  Claim C1. A read of \<open>n\<close> bytes takes \<open>n\<close> from the remaining bytes of every
  open frame, of the whole stack; and whenever the remaining bytes of a frame have become
  its padding \<open>ceil(total / 4) * 4 - total\<close>, and that is not zero, the cursor reads
  exactly that many bytes more, by a call of itself, before it goes on to the next frame
  and so before it returns, at every depth.

  The theorem has four parts. The padding of a frame is \<open>\<lceil>total / 4\<rceil> * 4 - total\<close>.
  When the read returns, every frame of the stack has lost \<open>n\<close> and the paddings of
  the frames \<open>js\<close> that asked, each of which asked once, and the file the same number
  of bytes; no frame asked exactly when none was \<open>n\<close> bytes away from its non-zero
  padding, and otherwise the first to ask is the first such frame. On return no frame
  stands at a non-zero padding. And the loop over the frames, at any index and in any
  state, ticks the frame by \<open>n\<close> and, if its remaining bytes are then its non-zero
  padding, goes on from the state that the read of exactly
  \<open>\<lceil>total / 4\<rceil> * 4 - total\<close> bytes has left.
\<close>

theorem read_bytes_ticks_every_frame_and_pads:
  "(\<forall>h. padding_bytes h = \<lceil>real (f_total h) / 4\<rceil> * 4 - int (f_total h))
   \<and> (\<exists>js. distinct js
        \<and> list_all (\<lambda>j. j < length (hierarchy s) \<and> padding_bytes (hierarchy s ! j) \<noteq> 0) js
        \<and> hierarchy (snd (read_bytes n s))
            = tick_all (int n + (\<Sum>j\<leftarrow>js. padding_bytes (hierarchy s ! j))) (hierarchy s)
        \<and> file_bytes (snd (read_bytes n s))
            = drop (n + nat (\<Sum>j\<leftarrow>js. padding_bytes (hierarchy s ! j))) (file_bytes s)
        \<and> (js = [] \<longleftrightarrow> \<not> list_ex (asks_padding n) (hierarchy s))
        \<and> (js \<noteq> [] \<longrightarrow>
              asks_padding n (hierarchy s ! hd js)
              \<and> list_all (\<lambda>h. \<not> asks_padding n h) (take (hd js) (hierarchy s))))
   \<and> list_all (\<lambda>h. f_remaining h \<noteq> padding_bytes h \<or> padding_bytes h = 0)
        (hierarchy (snd (read_bytes n s)))
   \<and> (i < length (hierarchy s) \<longrightarrow>
        read_loop n i s =
          (if f_remaining (hierarchy s ! i) - int n
                = \<lceil>real (f_total (hierarchy s ! i)) / 4\<rceil> * 4 - int (f_total (hierarchy s ! i))
              \<and> \<lceil>real (f_total (hierarchy s ! i)) / 4\<rceil> * 4 - int (f_total (hierarchy s ! i)) \<noteq> 0
           then read_loop n (Suc i)
                  (snd (read_bytes
                     (nat (\<lceil>real (f_total (hierarchy s ! i)) / 4\<rceil> * 4 - int (f_total (hierarchy s ! i))))
                     (tick i n s)))
           else read_loop n (Suc i) (tick i n s)))"
proof -
  have A: "\<forall>h. padding_bytes h = \<lceil>real (f_total h) / 4\<rceil> * 4 - int (f_total h)"
    by (simp add: padding_bytes_ceiling)
  from read_fired(1) [of n s] obtain js where js:
    "uni (n + pad_sum (hierarchy s) js) s (snd (read_bytes n s))"
    "fired n 0 js s (snd (read_bytes n s))"
    by blast
  have mem: "list_all (\<lambda>j. j < length (hierarchy s) \<and> padding_bytes (hierarchy s ! j) \<noteq> 0) js"
    using js(2) by (auto simp: fired_def pending_def list_all_iff)
  have B: "\<exists>js. distinct js
        \<and> list_all (\<lambda>j. j < length (hierarchy s) \<and> padding_bytes (hierarchy s ! j) \<noteq> 0) js
        \<and> hierarchy (snd (read_bytes n s))
            = tick_all (int n + (\<Sum>j\<leftarrow>js. padding_bytes (hierarchy s ! j))) (hierarchy s)
        \<and> file_bytes (snd (read_bytes n s))
            = drop (n + nat (\<Sum>j\<leftarrow>js. padding_bytes (hierarchy s ! j))) (file_bytes s)
        \<and> (js = [] \<longleftrightarrow> \<not> list_ex (asks_padding n) (hierarchy s))
        \<and> (js \<noteq> [] \<longrightarrow>
              asks_padding n (hierarchy s ! hd js)
              \<and> list_all (\<lambda>h. \<not> asks_padding n h) (take (hd js) (hierarchy s)))"
  proof (intro exI [of _ js] conjI)
    show "distinct js" using js(2) by (simp add: fired_def)
    show "list_all (\<lambda>j. j < length (hierarchy s) \<and> padding_bytes (hierarchy s ! j) \<noteq> 0) js"
      by (rule mem)
    show "hierarchy (snd (read_bytes n s))
            = tick_all (int n + (\<Sum>j\<leftarrow>js. padding_bytes (hierarchy s ! j))) (hierarchy s)"
      using js(1) by (simp add: uni_def int_pad_sum)
    show "file_bytes (snd (read_bytes n s))
            = drop (n + nat (\<Sum>j\<leftarrow>js. padding_bytes (hierarchy s ! j))) (file_bytes s)"
      using js(1) by (simp add: uni_def nat_pad_sum)
    show "js = [] \<longleftrightarrow> \<not> list_ex (asks_padding n) (hierarchy s)"
      using js(2) by (cases "js = []") (auto simp: fired_def list_ex_iff dest: nth_mem)
    show "js \<noteq> [] \<longrightarrow>
              asks_padding n (hierarchy s ! hd js)
              \<and> list_all (\<lambda>h. \<not> asks_padding n h) (take (hd js) (hierarchy s))"
      using js(2) by (cases "js = []") (simp_all add: fired_def)
  qed
  have C: "list_all (\<lambda>h. f_remaining h \<noteq> padding_bytes h \<or> padding_bytes h = 0)
        (hierarchy (snd (read_bytes n s)))"
    using read_settled(1) [of n s] by (simp add: settled_def asks_padding_def list_all_iff)
  have D: "i < length (hierarchy s) \<longrightarrow>
        read_loop n i s =
          (if f_remaining (hierarchy s ! i) - int n
                = \<lceil>real (f_total (hierarchy s ! i)) / 4\<rceil> * 4 - int (f_total (hierarchy s ! i))
              \<and> \<lceil>real (f_total (hierarchy s ! i)) / 4\<rceil> * 4 - int (f_total (hierarchy s ! i)) \<noteq> 0
           then read_loop n (Suc i)
                  (snd (read_bytes
                     (nat (\<lceil>real (f_total (hierarchy s ! i)) / 4\<rceil> * 4 - int (f_total (hierarchy s ! i))))
                     (tick i n s)))
           else read_loop n (Suc i) (tick i n s))"
  proof
    assume inb: "i < length (hierarchy s)"
    show "read_loop n i s =
          (if f_remaining (hierarchy s ! i) - int n
                = \<lceil>real (f_total (hierarchy s ! i)) / 4\<rceil> * 4 - int (f_total (hierarchy s ! i))
              \<and> \<lceil>real (f_total (hierarchy s ! i)) / 4\<rceil> * 4 - int (f_total (hierarchy s ! i)) \<noteq> 0
           then read_loop n (Suc i)
                  (snd (read_bytes
                     (nat (\<lceil>real (f_total (hierarchy s ! i)) / 4\<rceil> * 4 - int (f_total (hierarchy s ! i))))
                     (tick i n s)))
           else read_loop n (Suc i) (tick i n s))"
      using inb
      by (subst read_loop.simps)
         (simp add: nth_tick padding_bytes_ceiling [symmetric])
  qed
  from A B C D show ?thesis by (intro conjI)
qed

theorem read_bytes_cascade_witness:
  "padding_bytes (hierarchy cascade ! 0) = 2 \<and> padding_bytes (hierarchy cascade ! 1) = 3
   \<and> 0 < length (hierarchy cascade)
   \<and> f_remaining (hierarchy cascade ! 0) - 3 = 2
   \<and> read_bytes 3 cascade
       = ([1, 2, 3],
          \<lparr>file_bytes = [9, 10],
           hierarchy =
             [\<lparr>f_name = ''DEVC'', f_type = ''0'', f_size = 1, f_repeat = 6, f_total = 6, f_remaining = - 3\<rparr>,
              \<lparr>f_name = ''GPSU'', f_type = ''c'', f_size = 5, f_repeat = 1, f_total = 5, f_remaining = - 3\<rparr>],
           python_json = []\<rparr>)
   \<and> (\<exists>js. distinct js \<and> js \<noteq> []
          \<and> (\<Sum>j\<leftarrow>js. padding_bytes (hierarchy cascade ! j)) = 5
          \<and> hierarchy (snd (read_bytes 3 cascade)) = tick_all (3 + 5) (hierarchy cascade))
   \<and> read_loop 3 0 cascade = read_loop 3 (Suc 0) (snd (read_bytes 2 (tick 0 3 cascade)))"
proof -
  have e: "read_bytes 3 cascade
       = ([1, 2, 3],
          \<lparr>file_bytes = [9, 10],
           hierarchy =
             [\<lparr>f_name = ''DEVC'', f_type = ''0'', f_size = 1, f_repeat = 6, f_total = 6, f_remaining = - 3\<rparr>,
              \<lparr>f_name = ''GPSU'', f_type = ''c'', f_size = 5, f_repeat = 1, f_total = 5, f_remaining = - 3\<rparr>],
           python_json = []\<rparr>)"
    by code_simp
  have p: "padding_bytes (hierarchy cascade ! 0) = 2" "padding_bytes (hierarchy cascade ! 1) = 3"
    "\<lceil>real (f_total (hierarchy cascade ! 0)) / 4\<rceil> * 4 - int (f_total (hierarchy cascade ! 0)) = 2"
    by (simp_all add: cascade_def padding_bytes_def ceil_div4_def)
  have h: "0 < length (hierarchy cascade)" "f_remaining (hierarchy cascade ! 0) - 3 = 2"
    by (simp_all add: cascade_def)
  note T = read_bytes_ticks_every_frame_and_pads [of cascade 3 0]
  from T [THEN conjunct2, THEN conjunct1] obtain js where js:
    "distinct js"
    "hierarchy (snd (read_bytes 3 cascade))
       = tick_all (int 3 + (\<Sum>j\<leftarrow>js. padding_bytes (hierarchy cascade ! j))) (hierarchy cascade)"
    "js = [] \<longleftrightarrow> \<not> list_ex (asks_padding 3) (hierarchy cascade)"
    by blast
  have step: "read_loop 3 0 cascade = read_loop 3 (Suc 0) (snd (read_bytes 2 (tick 0 3 cascade)))"
    using T [THEN conjunct2, THEN conjunct2, THEN conjunct2] p(3) h by simp
  have s5: "(\<Sum>j\<leftarrow>js. padding_bytes (hierarchy cascade ! j)) = 5"
    using js(2) unfolding e by (simp add: cascade_def tick_all_def)
  have ne: "js \<noteq> []"
    using js(3) by (simp add: cascade_def asks_padding_def padding_bytes_def ceil_div4_def)
  have "\<exists>js. distinct js \<and> js \<noteq> []
          \<and> (\<Sum>j\<leftarrow>js. padding_bytes (hierarchy cascade ! j)) = 5
          \<and> hierarchy (snd (read_bytes 3 cascade)) = tick_all (3 + 5) (hierarchy cascade)"
    using js(1,2) s5 ne by (intro exI [of _ js]) simp
  then show ?thesis using e p(1,2) h step by simp
qed

text \<open>
  Claim C10. The frames are ticked by the amount that was asked for (and by the padding
  reads this starts), whatever the file gave back: the frames after the read are the same
  for every content \<open>f\<close> of the file, also when the file gives fewer bytes than asked
  for or none, and the bytes returned are just the first \<open>n\<close> of what is left. Nothing
  compares the two.
\<close>

theorem read_bytes_accounting_ignores_the_file:
  "\<exists>k. (k = 0 \<longleftrightarrow> \<not> list_ex (asks_padding n) (hierarchy s)) \<and>
       (\<forall>f. hierarchy (snd (read_bytes n (s\<lparr>file_bytes := f\<rparr>)))
               = tick_all (int n + int k) (hierarchy s)
            \<and> fst (read_bytes n (s\<lparr>file_bytes := f\<rparr>)) = take n f)"
proof -
  from read_bytes_parts [of n s] obtain k where k:
    "hierarchy (snd (read_bytes n s)) = tick_all (int n + int k) (hierarchy s)"
    "k = 0 \<longleftrightarrow> \<not> list_ex (asks_padding n) (hierarchy s)"
    by blast
  have "hierarchy (snd (read_bytes n (s\<lparr>file_bytes := f\<rparr>)))
          = tick_all (int n + int k) (hierarchy s)" for f
    using read_hierarchy_only(1) [of "s\<lparr>file_bytes := f\<rparr>" s n] k(1) by simp
  then show ?thesis
    using k(2) by (intro exI [of _ k]) (simp add: fst_read_bytes)
qed

theorem read_bytes_at_end_of_file_witness:
  "fst (read_bytes 4 open_devc) = []
   \<and> hierarchy (snd (read_bytes 4 open_devc)) = tick_all 4 (hierarchy open_devc)"
  using read_bytes_accounting_ignores_the_file [of 4 open_devc]
  by (auto simp: open_devc_def asks_padding_def padding_bytes_def ceil_div4_def)

text \<open>
  Claim C2, as the code has it. The claim is that a read gives exactly the bytes asked for
  or fails with an UnexpectedEndOfStream error, and that no truncated input gives a short
  value or a result that looks complete. The parser has no such error: a key of type
  \<open>c\<close> that announces 4 bytes, followed by only 2, is decoded to the 2 characters, and
  the run ends normally; a read of 4 bytes from a file of 2 bytes returns the 2 bytes.
\<close>

theorem truncated_payload_counterexample:
  "main 3 [0x47, 0x50, 0x53, 0x55, 0x63, 4, 0, 1, 0x41, 0x42]
     = Some (Inr [JKey ''GPSU'' ''c'' 4 1 [JStr ''AB'']])
   \<and> fst (read_bytes 4 (initial [0x41, 0x42])) = [0x41, 0x42]"
  by code_simp

text \<open>
  Claim C2, amended: a read never fails and returns the first \<open>n\<close> bytes of what is
  left, all of it when fewer than \<open>n\<close> are left; and when nothing is left where a
  header is due, the header is read as size 0 and repeat 0 and the run ends normally
  with the tree as it is.
\<close>

theorem read_returns_what_is_left:
  "fst (read_bytes n s) = take n (file_bytes s)
   \<and> length (fst (read_bytes n s)) = min n (length (file_bytes s))
   \<and> (file_bytes s = [] \<and> (hierarchy s = [] \<or> f_type (last (hierarchy s)) = ''0'') \<longrightarrow>
        (\<exists>s'. main_loop (Suc fuel) s = Some (Inr s') \<and> python_json s' = python_json s))"
proof (intro conjI impI)
  show "fst (read_bytes n s) = take n (file_bytes s)" by (rule fst_read_bytes)
  then show "length (fst (read_bytes n s)) = min n (length (file_bytes s))"
    by (simp add: min.commute)
next
  assume a: "file_bytes s = [] \<and> (hierarchy s = [] \<or> f_type (last (hierarchy s)) = ''0'')"
  then obtain s' where "read_header s = Break s'" "python_json s' = python_json s"
    using read_header_at_end by blast
  then show "\<exists>s'. main_loop (Suc fuel) s = Some (Inr s') \<and> python_json s' = python_json s"
    using a by (auto simp: main_step_def)
qed

theorem read_returns_what_is_left_witness:
  "fst (read_bytes 4 (initial [0x41, 0x42])) = [0x41, 0x42]
   \<and> length (fst (read_bytes 4 (initial [0x41, 0x42]))) = 2
   \<and> file_bytes (initial []) = [] \<and> hierarchy (initial []) = []
   \<and> (\<exists>s'. main_loop (Suc 0) (initial []) = Some (Inr s') \<and> python_json s' = [])"
  using read_returns_what_is_left [of 4 "initial [0x41, 0x42]" 0]
    read_returns_what_is_left [of 0 "initial []" 0]
  by (simp add: initial_def)

section \<open>The end of the run\<close>

text \<open>
  Claim C3, as the code has it. The claim is that a header with size 0 and repeat 0 ends
  the run when no container is open, and makes it fail when one is. The parser makes no
  difference: here the header comes inside the container \<open>DEVC\<close>, of which 8 bytes are
  still to come, and the run ends normally with that frame on the stack.
\<close>

theorem sentinel_in_container_counterexample:
  "main_loop 2 (initial [0x44, 0x45, 0x56, 0x43, 0, 1, 0, 16, 0, 0, 0, 0, 0, 0, 0, 0])
     = Some (Inr open_devc)"
  by code_simp

text \<open>
  Claim C3, amended: whenever a header is due (no key open, or the last one a
  container), and no open frame has padding to come, a header with size 0 and repeat 0
  ends the run normally, with or without open containers; the 8 bytes are taken from the
  file and from every open frame, and the tree stays as it is.
\<close>

theorem sentinel_ends_decode:
  assumes "hierarchy s = [] \<or> f_type (last (hierarchy s)) = ''0''"
    and "list_all (\<lambda>h. padding_bytes h = 0) (hierarchy s)"
    and "file_bytes s = k1 # k2 # k3 # k4 # t # 0 # 0 # 0 # rest"
    and "list_all (\<lambda>b. b < 0x80) [k1, k2, k3, k4, t]"
  shows "main_loop (Suc fuel) s
           = Some (Inr (s\<lparr>file_bytes := rest, hierarchy := tick_all 8 (hierarchy s)\<rparr>))"
proof -
  have "read_header s = Break (s\<lparr>file_bytes := rest, hierarchy := tick_all 8 (hierarchy s)\<rparr>)"
    using assms(2,4)
    by (simp add: read_header_def read_bytes_aligned no_padding_tick_all assms(3)
        decode_ascii_def from_bytes_big_def tick_all_tick_all)
  then show ?thesis using assms(1) by (auto simp: main_step_def)
qed

theorem sentinel_ends_decode_witness:
  "main_loop (Suc 0) (initial [0, 0, 0, 0, 0, 0, 0, 0]) = Some (Inr (initial []))"
  using sentinel_ends_decode [of "initial [0, 0, 0, 0, 0, 0, 0, 0]" 0 0 0 0 0 "[]" 0]
  by (simp add: initial_def tick_all_def)

section \<open>Decoding leaves\<close>

text \<open>
  Claim C5. A single leaf of type \<open>L\<close>, size 4, repeat 3, with the payload
  \<open>00000001 00000002 00000003\<close>, is decoded to the values 1, 2, 3 under its key. The
  leaf is read in three passes of \<open>size\<close> = 4 bytes: after the pass for the header and
  these three, exactly the 8 + 12 bytes of the record are gone from the file (the three
  bytes behind it are still there), the values are in the tree and the key is closed.
\<close>

theorem leaf_L_decodes_to_1_2_3:
  "main 5 [0x54, 0x53, 0x4D, 0x50, 0x4C, 4, 0, 3, 0, 0, 0, 1, 0, 0, 0, 2, 0, 0, 0, 3]
     = Some (Inr [JKey ''TSMP'' ''L'' 4 3 [JInt 1, JInt 2, JInt 3]])
   \<and> main_loop (Suc (Suc (Suc (Suc n))))
       (initial [0x54, 0x53, 0x4D, 0x50, 0x4C, 4, 0, 3, 0, 0, 0, 1, 0, 0, 0, 2, 0, 0, 0, 3,
                 0x41, 0x42, 0x43])
     = main_loop n \<lparr>file_bytes = [0x41, 0x42, 0x43], hierarchy = [],
          python_json = [JKey ''TSMP'' ''L'' 4 3 [JInt 1, JInt 2, JInt 3]]\<rparr>
   \<and> bytes_to_number [0, 0, 0, 1, 0, 0, 0, 2, 0, 0, 0, 3] 4 False DInt
     = Inr [JInt 1, JInt 2, JInt 3]"
  by code_simp

text \<open>
  Claim C8. The 16 bytes \<open>150623135045.123\<close> of a key of type \<open>U\<close> are decoded to
  the string \<open>23.06.2015 13:50:45.123\<close>, by the type dispatch and by a whole run.
\<close>

theorem type_U_decodes_date_time:
  "decode_value ''U'' [0x31, 0x35, 0x30, 0x36, 0x32, 0x33, 0x31, 0x33, 0x35, 0x30, 0x34, 0x35,
                       0x2E, 0x31, 0x32, 0x33]
     = Inr (JStr ''23.06.2015 13:50:45.123'')
   \<and> bytes_to_string [0x31, 0x35, 0x30, 0x36, 0x32, 0x33, 0x31, 0x33, 0x35, 0x30, 0x34, 0x35,
                       0x2E, 0x31, 0x32, 0x33] = ''150623135045.123''
   \<and> main 3 [0x47, 0x50, 0x53, 0x55, 0x55, 16, 0, 1,
              0x31, 0x35, 0x30, 0x36, 0x32, 0x33, 0x31, 0x33, 0x35, 0x30, 0x34, 0x35,
              0x2E, 0x31, 0x32, 0x33]
     = Some (Inr [JKey ''GPSU'' ''U'' 16 1 [JStr ''23.06.2015 13:50:45.123'']])"
  by code_simp

text \<open>
  Claim C6, as the code has it. The claim is that the leaf \<open>GPSU\<close> of type \<open>c\<close>, size
  1, repeat 4, payload \<open>TEST\<close>, inside the container \<open>DEVC\<close>, gets the one value
  \<open>"TEST"\<close>. Every pass reads \<open>size\<close> = 1 byte, so the run does not give that tree.
\<close>

theorem devc_gpsu_counterexample:
  "main 7 [0x44, 0x45, 0x56, 0x43, 0, 1, 0, 12,
           0x47, 0x50, 0x53, 0x55, 0x63, 1, 0, 4, 0x54, 0x45, 0x53, 0x54]
     \<noteq> Some (Inr [JKey ''DEVC'' ''0'' 1 12 [JKey ''GPSU'' ''c'' 1 4 [JStr ''TEST'']]])"
  by code_simp

text \<open>
  Claim C6, amended: \<open>GPSU\<close> is a child of \<open>DEVC\<close> with the four values \<open>"T"\<close>,
  \<open>"E"\<close>, \<open>"S"\<close>, \<open>"T"\<close>, one string for each element. The bytes read for \<open>GPSU\<close>
  are taken from what remains of \<open>DEVC\<close>: a \<open>DEVC\<close> of 32 bytes has 32 remaining
  after its own header, and 20 after the 8 bytes of the header of \<open>GPSU\<close> and the 4 bytes
  of its payload, which needs no padding.
\<close>

theorem devc_gpsu_single_characters:
  "main 7 [0x44, 0x45, 0x56, 0x43, 0, 1, 0, 12,
           0x47, 0x50, 0x53, 0x55, 0x63, 1, 0, 4, 0x54, 0x45, 0x53, 0x54]
     = Some (Inr [JKey ''DEVC'' ''0'' 1 12
                   [JKey ''GPSU'' ''c'' 1 4 [JStr ''T'', JStr ''E'', JStr ''S'', JStr ''T'']]])
   \<and> main_loop (Suc n)
       (initial [0x44, 0x45, 0x56, 0x43, 0, 1, 0, 32,
                 0x47, 0x50, 0x53, 0x55, 0x63, 1, 0, 4, 0x54, 0x45, 0x53, 0x54, 0x41, 0x42])
     = main_loop n
         \<lparr>file_bytes = [0x47, 0x50, 0x53, 0x55, 0x63, 1, 0, 4, 0x54, 0x45, 0x53, 0x54, 0x41, 0x42],
          hierarchy = [\<lparr>f_name = ''DEVC'', f_type = ''0'', f_size = 1, f_repeat = 32,
                         f_total = 32, f_remaining = 32\<rparr>],
          python_json = [JKey ''DEVC'' ''0'' 1 32 []]\<rparr>
   \<and> main_loop (Suc (Suc (Suc (Suc (Suc (Suc n))))))
       (initial [0x44, 0x45, 0x56, 0x43, 0, 1, 0, 32,
                 0x47, 0x50, 0x53, 0x55, 0x63, 1, 0, 4, 0x54, 0x45, 0x53, 0x54, 0x41, 0x42])
     = main_loop n
         \<lparr>file_bytes = [0x41, 0x42],
          hierarchy = [\<lparr>f_name = ''DEVC'', f_type = ''0'', f_size = 1, f_repeat = 32,
                         f_total = 32, f_remaining = 20\<rparr>],
          python_json = [JKey ''DEVC'' ''0'' 1 32
             [JKey ''GPSU'' ''c'' 1 4 [JStr ''T'', JStr ''E'', JStr ''S'', JStr ''T'']]]\<rparr>"
  by code_simp














section \<open>Closing keys\<close>

text \<open>
  What \<open>handle_types\<close> does at its end: the stack after it is the stack as the read
  left it, without the frames that have no bytes remaining.
\<close>

lemma json_add_value_hierarchy:
  "json_add_value v s = Inr s' \<Longrightarrow> hierarchy s' = hierarchy s"
  by (auto simp: json_add_value_def split: sum.splits)

lemma handle_types_closes:
  assumes "handle_types s = Inr s'"
  shows "hierarchy s'
           = filter (\<lambda>h. f_remaining h \<noteq> 0)
               (hierarchy (snd (read_bytes (f_size (last (hierarchy s))) s)))"
  using assms
  by (auto simp: handle_types_def split: if_splits prod.splits sum.splits
           dest: json_add_value_hierarchy)

text \<open>
  Claim C4: a frame is closed exactly when its remaining bytes reach zero, all such
  frames together, before the next header is read. The parser closes frames at the end of
  \<open>handle_types\<close> only. A frame whose remaining bytes reach zero while a header is
  read stays open: in the first stream below, \<open>DEVC\<close> has 8 bytes, the header of an
  empty \<open>STRM\<close>. After that header both frames have 0 bytes remaining and both are
  still on the stack when the next header is read, so the second \<open>DEVC\<close> ends inside
  \<open>STRM\<close>. In the second stream \<open>STRM\<close> holds one leaf, the frames are closed
  after the leaf, and the second \<open>DEVC\<close> is at the top of the tree.
\<close>

theorem empty_container_stays_open:
  "main_loop (Suc (Suc n))
       (initial [0x44, 0x45, 0x56, 0x43, 0, 1, 0, 8,
                 0x53, 0x54, 0x52, 0x4D, 0, 1, 0, 0,
                 0x44, 0x45, 0x56, 0x43, 0, 1, 0, 12,
                 0x44, 0x56, 0x49, 0x44, 0x4C, 4, 0, 1, 0, 0, 0, 1])
     = main_loop n
         \<lparr>file_bytes = [0x44, 0x45, 0x56, 0x43, 0, 1, 0, 12,
                        0x44, 0x56, 0x49, 0x44, 0x4C, 4, 0, 1, 0, 0, 0, 1],
          hierarchy =
            [\<lparr>f_name = ''DEVC'', f_type = ''0'', f_size = 1, f_repeat = 8, f_total = 8,
               f_remaining = 0\<rparr>,
             \<lparr>f_name = ''STRM'', f_type = ''0'', f_size = 1, f_repeat = 0, f_total = 0,
               f_remaining = 0\<rparr>],
          python_json = [JKey ''DEVC'' ''0'' 1 8 [JKey ''STRM'' ''0'' 1 0 []]]\<rparr>
   \<and> main 6 [0x44, 0x45, 0x56, 0x43, 0, 1, 0, 8,
              0x53, 0x54, 0x52, 0x4D, 0, 1, 0, 0,
              0x44, 0x45, 0x56, 0x43, 0, 1, 0, 12,
              0x44, 0x56, 0x49, 0x44, 0x4C, 4, 0, 1, 0, 0, 0, 1]
     = Some (Inr [JKey ''DEVC'' ''0'' 1 8
                   [JKey ''STRM'' ''0'' 1 0
                     [JKey ''DEVC'' ''0'' 1 12 [JKey ''DVID'' ''L'' 4 1 [JInt 1]]]]])
   \<and> main 8 [0x44, 0x45, 0x56, 0x43, 0, 1, 0, 20,
              0x53, 0x54, 0x52, 0x4D, 0, 1, 0, 12,
              0x44, 0x56, 0x49, 0x44, 0x4C, 4, 0, 1, 0, 0, 0, 1,
              0x44, 0x45, 0x56, 0x43, 0, 1, 0, 12,
              0x44, 0x56, 0x49, 0x44, 0x4C, 4, 0, 1, 0, 0, 0, 1]
     = Some (Inr [JKey ''DEVC'' ''0'' 1 20
                   [JKey ''STRM'' ''0'' 1 12 [JKey ''DVID'' ''L'' 4 1 [JInt 1]]],
                  JKey ''DEVC'' ''0'' 1 12 [JKey ''DVID'' ''L'' 4 1 [JInt 1]]])"
  by code_simp

section \<open>Scaling the samples of a stream\<close>

lemma collect_Inr:
  "collect rs = Inr vs \<Longrightarrow> length vs = length rs \<and> (\<forall>i < length rs. rs ! i = Inr (vs ! i))"
proof (induction rs arbitrary: vs rule: collect.induct)
  case 1
  then show ?case by simp
next
  case (2 e rs)
  then show ?case by simp
next
  case (3 v rs)
  from 3(2) obtain ws where ws: "collect rs = Inr ws" "vs = v # ws"
    by (auto split: sum.splits)
  from 3(1) [OF ws(1)] ws(2) show ?case
    by (auto simp: nth_Cons split: nat.splits)
qed

lemma scale_entry_Inr:
  assumes "scale_entry rd scales entry = Inr row"
  shows "\<exists>vs. py_iter entry = Inr vs \<and> length row = length vs
           \<and> (\<forall>i < length vs. scales \<noteq> [] \<and> rd (vs ! i) (scales ! (i mod length scales)) = Inr (row ! i))"
proof -
  from assms obtain vs where vs: "py_iter entry = Inr vs"
    and c: "collect (map (\<lambda>(i, v). if scales = [] then Inl ZeroDivisionError
                                  else rd v (scales ! (i mod length scales)))
                       (enumerate 0 vs)) = Inr row"
    by (auto simp: scale_entry_def split: sum.splits)
  from collect_Inr [OF c] have len: "length row = length vs"
    and el: "\<And>i. i < length vs \<Longrightarrow>
         (if scales = [] then Inl ZeroDivisionError else rd (vs ! i) (scales ! (i mod length scales)))
           = Inr (row ! i)"
    by (auto simp: nth_enumerate_eq)
  have "scales \<noteq> [] \<and> rd (vs ! i) (scales ! (i mod length scales)) = Inr (row ! i)"
    if "i < length vs" for i
    using el [OF that] by (cases "scales = []") auto
  then show ?thesis using vs len by blast
qed

text \<open>
  Claim C9. With a scale present, the value at index \<open>i\<close> of every sample group is
  divided by the scale at index \<open>i mod len(scales)\<close>. Whenever \<open>scale_values\<close>
  returns, its result has one row for every group of \<open>values\<close>, and the element \<open>i\<close>
  of row \<open>g\<close> is the rounded quotient of element \<open>i\<close> of group \<open>g\<close> by
  \<open>scales[i % len(scales)]\<close>. And \<open>fill_stream_data\<close>, for the key of the stream
  when the scale is there and not empty, appends just this result for the values of
  the key.
\<close>

theorem scale_values_divides_cyclically:
  "(scale_values rd values scales = Inr out \<and> g < length values \<longrightarrow>
      length out = length values
      \<and> (\<exists>entry. py_iter (values ! g) = Inr entry \<and> length (out ! g) = length entry
            \<and> (\<forall>i < length entry.
                  scales \<noteq> []
                  \<and> rd (entry ! i) (scales ! (i mod length scales)) = Inr (out ! g ! i))))
   \<and> (first_key d = Inr stream_name \<and> stream_name \<notin> set [''SCAL'', ''STNM'', ''SIUN'', ''UNIT'']
        \<and> scales \<noteq> [] \<and> map_of output stream_name = Some old
        \<and> export_data rd stream_name (Some scales) d output = Inr output' \<longrightarrow>
        (\<exists>vs rows. subscript_values d stream_name = Inr vs
            \<and> scale_values rd vs scales = Inr rows
            \<and> output' = dict_append stream_name (JList (map JList rows)) output))"
proof -
  have A: "scale_values rd values scales = Inr out \<and> g < length values \<longrightarrow>
      length out = length values
      \<and> (\<exists>entry. py_iter (values ! g) = Inr entry \<and> length (out ! g) = length entry
            \<and> (\<forall>i < length entry.
                  scales \<noteq> []
                  \<and> rd (entry ! i) (scales ! (i mod length scales)) = Inr (out ! g ! i)))"
  proof (rule impI)
    assume a: "scale_values rd values scales = Inr out \<and> g < length values"
    then have c: "collect (map (scale_entry rd scales) values) = Inr out"
      by (simp add: scale_values_def)
    from collect_Inr [OF c] a have len: "length out = length values"
      and row: "scale_entry rd scales (values ! g) = Inr (out ! g)"
      by auto
    from scale_entry_Inr [OF row] len
    show "length out = length values
      \<and> (\<exists>entry. py_iter (values ! g) = Inr entry \<and> length (out ! g) = length entry
            \<and> (\<forall>i < length entry.
                  scales \<noteq> []
                  \<and> rd (entry ! i) (scales ! (i mod length scales)) = Inr (out ! g ! i)))"
      by blast
  qed
  have B: "first_key d = Inr stream_name \<and> stream_name \<notin> set [''SCAL'', ''STNM'', ''SIUN'', ''UNIT'']
        \<and> scales \<noteq> [] \<and> map_of output stream_name = Some old
        \<and> export_data rd stream_name (Some scales) d output = Inr output' \<longrightarrow>
        (\<exists>vs rows. subscript_values d stream_name = Inr vs
            \<and> scale_values rd vs scales = Inr rows
            \<and> output' = dict_append stream_name (JList (map JList rows)) output)"
    by (auto simp: export_data_def split: sum.splits)
  show ?thesis by (rule conjI [OF A B])
qed

theorem gps5_scaled_witness:
  "scale_values pair_div [JList [JInt 10, JInt 20, JInt 30], JList [JInt 40, JInt 50, JInt 60]]
      [JInt 2, JInt 3]
     = Inr [[JList [JInt 10, JInt 2], JList [JInt 20, JInt 3], JList [JInt 30, JInt 2]],
            [JList [JInt 40, JInt 2], JList [JInt 50, JInt 3], JList [JInt 60, JInt 2]]]
   \<and> (\<exists>entry. py_iter (JList [JInt 40, JInt 50, JInt 60]) = Inr entry \<and> length entry = 3
         \<and> pair_div (entry ! 2) ([JInt 2, JInt 3] ! (2 mod 2)) = Inr (JList [JInt 60, JInt 2]))
   \<and> first_key (JKey ''GPS5'' ''l'' 12 1 [JList [JInt 10, JInt 20, JInt 30]]) = Inr ''GPS5''
   \<and> map_of [(''GPS5'', [])] ''GPS5'' = Some []
   \<and> export_data pair_div ''GPS5'' (Some [JInt 2, JInt 3])
        (JKey ''GPS5'' ''l'' 12 1 [JList [JInt 10, JInt 20, JInt 30]]) [(''GPS5'', [])]
     = Inr (dict_append ''GPS5''
              (JList [JList [JList [JInt 10, JInt 2], JList [JInt 20, JInt 3], JList [JInt 30, JInt 2]]])
              [(''GPS5'', [])])
   \<and> fill_stream_data pair_div [(''GPS5'', [])] gps ''GPS5''
     = Inr [(''GPS5'',
             [JList [JList [JList [JInt 10, JInt 2], JList [JInt 20, JInt 3], JList [JInt 30, JInt 2]],
                     JList [JList [JInt 40, JInt 2], JList [JInt 50, JInt 3], JList [JInt 60, JInt 2]]]])]"
proof -
  have e: "scale_values pair_div [JList [JInt 10, JInt 20, JInt 30], JList [JInt 40, JInt 50, JInt 60]]
      [JInt 2, JInt 3]
     = Inr [[JList [JInt 10, JInt 2], JList [JInt 20, JInt 3], JList [JInt 30, JInt 2]],
            [JList [JInt 40, JInt 2], JList [JInt 50, JInt 3], JList [JInt 60, JInt 2]]]"
    by code_simp
  have x: "export_data pair_div ''GPS5'' (Some [JInt 2, JInt 3])
        (JKey ''GPS5'' ''l'' 12 1 [JList [JInt 10, JInt 20, JInt 30]]) [(''GPS5'', [])]
     = Inr (dict_append ''GPS5''
              (JList [JList [JList [JInt 10, JInt 2], JList [JInt 20, JInt 3], JList [JInt 30, JInt 2]]])
              [(''GPS5'', [])])"
    by code_simp
  have f: "fill_stream_data pair_div [(''GPS5'', [])] gps ''GPS5''
     = Inr [(''GPS5'',
             [JList [JList [JList [JInt 10, JInt 2], JList [JInt 20, JInt 3], JList [JInt 30, JInt 2]],
                     JList [JList [JInt 40, JInt 2], JList [JInt 50, JInt 3], JList [JInt 60, JInt 2]]]])]"
    by code_simp
  from scale_values_divides_cyclically [of pair_div
      "[JList [JInt 10, JInt 20, JInt 30], JList [JInt 40, JInt 50, JInt 60]]" "[JInt 2, JInt 3]"
      "[[JList [JInt 10, JInt 2], JList [JInt 20, JInt 3], JList [JInt 30, JInt 2]],
        [JList [JInt 40, JInt 2], JList [JInt 50, JInt 3], JList [JInt 60, JInt 2]]]" 1
      "JKey ''GPS5'' ''l'' 12 1 [JList [JInt 10, JInt 20, JInt 30]]" "''GPS5''"
      "[(''GPS5'', [])]" "[]"] e x
  have "\<exists>entry. py_iter (JList [JInt 40, JInt 50, JInt 60]) = Inr entry \<and> length entry = 3
         \<and> pair_div (entry ! 2) ([JInt 2, JInt 3] ! (2 mod 2)) = Inr (JList [JInt 60, JInt 2])"
    by (simp add: pair_div_def)
  then show ?thesis using e x f by simp
qed

end
